theory Spec2Isabelle
  imports Main
begin

section \<open>Source text and character classes\<close>

text \<open>
  A Go string is read by the tokenizer rune by rune (\<^verbatim>\<open>for _, c := range code\<close>) and
  \<^verbatim>\<open>isVar\<close> does the same with a token. A text is modelled as the list of its runes and a
  rune as a \<^typ>\<open>char\<close>, which covers the code points U+0000 to U+00FF; the three
  predicates of Go's \<^verbatim>\<open>unicode\<close> package are written out for that range (the Latin-1
  property table of the package: letters are A-Z, a-z, U+00AA, U+00B5, U+00BA, U+00C0-U+00D6,
  U+00D8-U+00F6, U+00F8-U+00FF; upper-case letters are A-Z, U+00C0-U+00D6, U+00D8-U+00DE;
  decimal digits are 0-9).
\<close>

type_synonym rune = char

type_synonym runePred = "rune \<Rightarrow> bool"

definition between :: "nat \<Rightarrow> nat \<Rightarrow> rune \<Rightarrow> bool" where
  "between lo hi c = (lo \<le> of_char c \<and> (of_char c :: nat) \<le> hi)"

definition IsUpper :: runePred where
  "IsUpper c = (between 65 90 c \<or> between 192 214 c \<or> between 216 222 c)"

definition IsLetter :: runePred where
  "IsLetter c = (between 65 90 c \<or> between 97 122 c \<or> between 170 170 c
     \<or> between 181 181 c \<or> between 186 186 c \<or> between 192 214 c
     \<or> between 216 246 c \<or> between 248 255 c)"

definition IsDigit :: runePred where
  "IsDigit c = between 48 57 c"

text \<open>\<^verbatim>\<open>isWsp\<close>: space, tab and vertical tab.\<close>

definition isWsp :: runePred where
  "isWsp r = (r = CHR '' '' \<or> r = CHR 0x09 \<or> r = CHR 0x0B)"

section \<open>The tokenizer\<close>

definition tokenPreds :: "runePred list" where
  "tokenPreds = [IsUpper, IsLetter, IsDigit, isWsp]"

text \<open>
  The inner loop of \<^verbatim>\<open>tokenize\<close> over \<^verbatim>\<open>tokenPreds\<close>: the first predicate that
  holds of \<^verbatim>\<open>c\<close> decides the new state, which stays \<^verbatim>\<open>nil\<close> when that predicate
  is the one at index 0 and when no predicate holds.
\<close>

fun selectPred :: "rune \<Rightarrow> nat \<Rightarrow> runePred list \<Rightarrow> runePred option" where
  "selectPred c i [] = None"
| "selectPred c i (pred # preds) =
     (if pred c then (if i = 0 then None else Some pred)
      else selectPred c (i + 1) preds)"

text \<open>
  The state of the scan is \<^verbatim>\<open>(st, matches, buf)\<close>; \<open>tokenizeStep\<close> is one turn of
  the loop over the runes of the text.
\<close>

type_synonym scanState = "runePred option \<times> string list \<times> rune list"

fun tokenizeStep :: "scanState \<Rightarrow> rune \<Rightarrow> scanState" where
  "tokenizeStep (st, matches, buf) c =
     (if st \<noteq> None \<and> (the st) c then (st, matches, buf @ [c])
      else
        (selectPred c 0 tokenPreds,
         (if length buf > 0 \<and> \<not> isWsp (buf ! 0) then matches @ [buf] else matches),
         [c]))"

text \<open>
  \<^verbatim>\<open>tokenize\<close>: after the scan the buffer is appended whatever it holds, then the
  end-of-input marker. The error result is always \<^verbatim>\<open>nil\<close>.
\<close>

record Unexpected =
  Found :: string
  Expecting :: string

definition tokenize :: "string \<Rightarrow> string list \<times> Unexpected option" where
  "tokenize code =
     (case foldl tokenizeStep (None, [], []) code of
        (st, matches, buf) \<Rightarrow> (matches @ [buf] @ [''''], None))"

section \<open>Grammar specification and syntax tree\<close>

text \<open>
  \<^verbatim>\<open>OpType\<close> is an \<^verbatim>\<open>int\<close> in the source with four named values; \<open>OtherOpType\<close>
  stands for every other value, which the \<^verbatim>\<open>switch\<close> of \<^verbatim>\<open>parseExpr\<close> does not handle.
\<close>

datatype OpType = InfixLeft | InfixRight | Prefix | Suffix | OtherOpType

record Group =
  Left :: string
  Right :: string

record Prec =
  Glyphs :: "string list"
  Type :: OpType

record Parser =
  Operators :: "Prec list"
  Parens :: "Group list"
  Brackets :: "Group list"
  AdjacentIsApplication :: bool

text \<open>
  \<^verbatim>\<open>Expr\<close> is an interface value: \<open>NilExpr\<close> is the \<^verbatim>\<open>nil\<close> interface, which the
  parser returns beside an error and which can also end up as the child of a node.
\<close>

datatype Expr =
    NilExpr
  | Var string
  | Apply Expr Expr
  | Unary string Expr
  | Binary string Expr Expr

datatype Equation = Equation Expr Expr

definition PEMDAS :: Parser where
  "PEMDAS = \<lparr>
     Operators = [
       \<lparr>Glyphs = ['',''], Type = InfixLeft\<rparr>,
       \<lparr>Glyphs = [''+'', ''-''], Type = InfixLeft\<rparr>,
       \<lparr>Glyphs = [''*'', ''/'', [CHR 0x5C]], Type = InfixLeft\<rparr>,
       \<lparr>Glyphs = [''^''], Type = InfixRight\<rparr>,
       \<lparr>Glyphs = [''-'', ''+''], Type = Prefix\<rparr>,
       \<lparr>Glyphs = [[CHR 0x27]], Type = Suffix\<rparr>],
     Parens = [\<lparr>Left = ''('', Right = '')''\<rparr>, \<lparr>Left = ''['', Right = '']''\<rparr>],
     Brackets = [\<lparr>Left = ''{'', Right = ''}''\<rparr>],
     AdjacentIsApplication = True\<rparr>"

definition isVar :: "string \<Rightarrow> bool" where
  "isVar s = (list_all (\<lambda>c. IsLetter c \<or> IsDigit c) s \<and> s \<noteq> '''')"

definition isEq :: "string \<Rightarrow> bool" where
  "isEq s = (s = ''='')"

definition isEof :: "string \<Rightarrow> bool" where
  "isEof s = (s = '''')"

definition isOp :: "string \<Rightarrow> string list \<Rightarrow> bool" where
  "isOp s ops = (if s = '''' then False else list_ex (\<lambda>op. op = s) ops)"

section \<open>Formatting of the error texts\<close>

text \<open>
  \<^verbatim>\<open>fmt.Sprintf("%#v", s)\<close> of a string is \<^verbatim>\<open>strconv.Quote(s)\<close>: the text between
  double quotes, a double quote and a backslash escaped by a backslash, a printable rune
  as it is, and the other runes by their escape sequence.
\<close>

definition IsPrint :: runePred where
  "IsPrint c = (between 32 126 c \<or> (between 161 255 c \<and> of_char c \<noteq> (173::nat)))"

definition hexDigit :: "nat \<Rightarrow> char" where
  "hexDigit n = ''0123456789abcdef'' ! (n mod 16)"

definition appendEscapedRune :: "rune \<Rightarrow> string" where
  "appendEscapedRune r =
     (if r = CHR 0x22 \<or> r = CHR 0x5C then [CHR 0x5C, r]
      else if IsPrint r then [r]
      else if r = CHR 0x07 then [CHR 0x5C, CHR ''a'']
      else if r = CHR 0x08 then [CHR 0x5C, CHR ''b'']
      else if r = CHR 0x0C then [CHR 0x5C, CHR ''f'']
      else if r = CHR 0x0A then [CHR 0x5C, CHR ''n'']
      else if r = CHR 0x0D then [CHR 0x5C, CHR ''r'']
      else if r = CHR 0x09 then [CHR 0x5C, CHR ''t'']
      else if r = CHR 0x0B then [CHR 0x5C, CHR ''v'']
      else if of_char r < (32::nat) \<or> r = CHR 0x7F
        then [CHR 0x5C, CHR ''x'', hexDigit (of_char r div 16), hexDigit (of_char r)]
      else [CHR 0x5C, CHR ''u'', CHR ''0'', CHR ''0'',
            hexDigit (of_char r div 16), hexDigit (of_char r)])"

definition Quote :: "string \<Rightarrow> string" where
  "Quote s = [CHR 0x22] @ concat (map appendEscapedRune s) @ [CHR 0x22]"

text \<open>
  The text of what \<^verbatim>\<open>parseSingle\<close> would have accepted: every glyph of every prefix
  level, each as \<^verbatim>\<open>"%s", \<close>, then \<^verbatim>\<open>or a variable\<close> unless there was no glyph.
\<close>

definition prefixOptions :: "Parser \<Rightarrow> string" where
  "prefixOptions p =
     concat (map (\<lambda>op. if Type op = Prefix
                        then concat (map (\<lambda>glyph. [CHR 0x22] @ glyph @ [CHR 0x22] @ '', '') (Glyphs op))
                        else '''')
                 (Operators p))"

definition options :: "Parser \<Rightarrow> string" where
  "options p = (if prefixOptions p \<noteq> '''' then prefixOptions p @ ''or a variable'' else '''')"

section \<open>The parsing engine\<close>

text \<open>
  A Go function that panics returns nothing: its result is \<open>Inl\<close> of the panic.
  Otherwise \<^verbatim>\<open>parseSingle\<close> and \<^verbatim>\<open>parseExpr\<close> return the triple
  \<^verbatim>\<open>(lo, e, err)\<close>, with \<open>None\<close> for a \<^verbatim>\<open>nil\<close> error. Reading \<^verbatim>\<open>lo[0]\<close> of an
  empty slice is \<open>IndexOutOfRange\<close>, taking \<^verbatim>\<open>lo[1:]\<close> of one is
  \<open>SliceBoundsOutOfRange\<close>, and \<open>ShouldNotGetHere\<close> is the \<^verbatim>\<open>panic\<close> that ends
  \<^verbatim>\<open>parseExpr\<close>.
\<close>

datatype panic = IndexOutOfRange | SliceBoundsOutOfRange | ShouldNotGetHere

type_synonym parsed = "panic + (string list \<times> Expr \<times> Unexpected option)"

text \<open>
  The loop of the \<^verbatim>\<open>Suffix\<close> case, which calls no parsing function: it wraps
  \<^verbatim>\<open>e\<close> once for each glyph of the level at the head of \<^verbatim>\<open>lo\<close>.
\<close>

fun suffixLoop :: "string list \<Rightarrow> string list \<Rightarrow> Expr \<Rightarrow> parsed" where
  "suffixLoop glyphs [] e = Inl IndexOutOfRange"
| "suffixLoop glyphs (l # lo) e =
     (if isOp l glyphs then suffixLoop glyphs lo (Unary l e)
      else Inr (l # lo, e, None))"

text \<open>
  \<^verbatim>\<open>parseSingle\<close> and \<^verbatim>\<open>parseExpr\<close>, with the two loops that call them:
  \<open>applyLoop\<close> is the \<^verbatim>\<open>for\<close> loop of \<^verbatim>\<open>parseSingle\<close> that folds the atoms after a
  variable into \<^verbatim>\<open>Apply\<close> nodes, \<open>infixLeftLoop\<close> the \<^verbatim>\<open>for\<close> loop of the
  \<^verbatim>\<open>InfixLeft\<close> case, which starts with the \<^verbatim>\<open>err\<close> of the first operand unchecked.
  The loops over \<^verbatim>\<open>p.Parens\<close> and \<^verbatim>\<open>p.Brackets\<close> act on the first group whose
  \<^verbatim>\<open>Left\<close> is the token, which is \<open>find\<close>.
\<close>

function parseSingle :: "Parser \<Rightarrow> string list \<Rightarrow> bool \<Rightarrow> parsed"
  and applyLoop :: "Parser \<Rightarrow> string list \<Rightarrow> Expr \<Rightarrow> parsed"
  and parseExpr :: "Parser \<Rightarrow> nat \<Rightarrow> string list \<Rightarrow> parsed"
  and infixLeftLoop :: "Parser \<Rightarrow> nat \<Rightarrow> string list \<Rightarrow> Expr \<Rightarrow> Unexpected option \<Rightarrow> parsed"
where
  "parseSingle p tokens inApp =
     (case tokens of
        [] \<Rightarrow> Inl IndexOutOfRange
      | t # rest \<Rightarrow>
          if isVar t then
            (if inApp then Inr (rest, Var t, None) else applyLoop p rest (Var t))
          else
            (case find (\<lambda>g. t = Left g) (Parens p) of
               Some g \<Rightarrow>
                 (case parseExpr p 0 rest of
                    Inl pn \<Rightarrow> Inl pn
                  | Inr (lo, e, err) \<Rightarrow>
                      (case lo of
                         [] \<Rightarrow> Inl IndexOutOfRange
                       | l # lo' \<Rightarrow>
                           if l \<noteq> Right g
                           then Inr (lo, NilExpr,
                                  Some \<lparr>Found = l, Expecting = Quote (Right g)\<rparr>)
                           else Inr (lo', e, err)))
             | None \<Rightarrow>
                 (case find (\<lambda>g. t = Left g) (Brackets p) of
                    Some g \<Rightarrow>
                      if length tokens > 1 \<and> tokens ! 1 = Right g
                      then Inr (drop 2 tokens, Var (Left g @ Right g), None)
                      else
                        (case parseExpr p 0 rest of
                           Inl pn \<Rightarrow> Inl pn
                         | Inr (lo, e, err) \<Rightarrow>
                             (case lo of
                                [] \<Rightarrow> Inl IndexOutOfRange
                              | l # lo' \<Rightarrow>
                                  if l \<noteq> Right g
                                  then Inr (lo, NilExpr,
                                         Some \<lparr>Found = l, Expecting = Quote (Right g)\<rparr>)
                                  else Inr (lo', Unary (Left g @ Right g) e, err)))
                  | None \<Rightarrow>
                      Inr (tokens, NilExpr, Some \<lparr>Found = t, Expecting = options p\<rparr>))))"
| "applyLoop p lo e =
     (case lo of
        [] \<Rightarrow> Inl IndexOutOfRange
      | l # rest \<Rightarrow>
          if list_ex (\<lambda>g. l = Left g) (Parens p @ Brackets p)
             \<or> (isVar l \<and> AdjacentIsApplication p)
          then
            (case parseSingle p lo True of
               Inl pn \<Rightarrow> Inl pn
             | Inr (lo', e2, err) \<Rightarrow>
                 if err \<noteq> None then Inr (lo', e, err)
                 else applyLoop p lo' (Apply e e2))
          else Inr (lo, e, None))"
| "parseExpr p prec tokens =
     (if prec \<ge> length (Operators p) then parseSingle p tokens False
      else
        (case Type (Operators p ! prec) of
           Prefix \<Rightarrow>
             (case tokens of
                [] \<Rightarrow> Inl IndexOutOfRange
              | glyph # rest \<Rightarrow>
                  if isOp glyph (Glyphs (Operators p ! prec)) then
                    (case parseExpr p prec rest of
                       Inl pn \<Rightarrow> Inl pn
                     | Inr (lo, e, err) \<Rightarrow>
                         if err \<noteq> None then Inr (lo, NilExpr, err)
                         else Inr (lo, Unary glyph e, None))
                  else parseExpr p (prec + 1) tokens)
         | InfixLeft \<Rightarrow>
             (case parseExpr p (prec + 1) tokens of
                Inl pn \<Rightarrow> Inl pn
              | Inr (lo, e, err) \<Rightarrow> infixLeftLoop p prec lo e err)
         | InfixRight \<Rightarrow>
             (case parseExpr p (prec + 1) tokens of
                Inl pn \<Rightarrow> Inl pn
              | Inr (lo, e, err) \<Rightarrow>
                  if err \<noteq> None then Inr (lo, NilExpr, err)
                  else
                    (case lo of
                       [] \<Rightarrow> Inl IndexOutOfRange
                     | glyph # rest \<Rightarrow>
                         if isOp glyph (Glyphs (Operators p ! prec)) then
                           (case parseExpr p prec rest of
                              Inl pn \<Rightarrow> Inl pn
                            | Inr (lo', e2, err') \<Rightarrow>
                                if err' \<noteq> None then
                                  (case lo' of
                                     [] \<Rightarrow> Inl SliceBoundsOutOfRange
                                   | l # lo'' \<Rightarrow> Inr (lo'', NilExpr, err'))
                                else Inr (lo', Binary glyph e e2, None))
                         else Inr (lo, e, None)))
         | Suffix \<Rightarrow>
             (case parseExpr p (prec + 1) tokens of
                Inl pn \<Rightarrow> Inl pn
              | Inr (lo, e, err) \<Rightarrow>
                  if err \<noteq> None then Inr (lo, NilExpr, err)
                  else suffixLoop (Glyphs (Operators p ! prec)) lo e)
         | OtherOpType \<Rightarrow> Inl ShouldNotGetHere))"
| "infixLeftLoop p prec lo e err =
     (case lo of
        [] \<Rightarrow> Inl IndexOutOfRange
      | glyph # rest \<Rightarrow>
          if isOp glyph (Glyphs (Operators p ! prec)) then
            (case parseExpr p (prec + 1) rest of
               Inl pn \<Rightarrow> Inl pn
             | Inr (lo', e2, err') \<Rightarrow>
                 if err' \<noteq> None then Inr (lo', NilExpr, err')
                 else infixLeftLoop p prec lo' (Binary glyph e e2) None)
          else Inr (lo, e, err))"
  by pat_completeness auto

text \<open>
  \<^verbatim>\<open>parseEqn\<close> returns \<^verbatim>\<open>(lo, r, err)\<close> with \<^verbatim>\<open>r\<close> a pointer to an equation, which
  stays \<^verbatim>\<open>nil\<close> (\<open>None\<close>) on every path but the last.
\<close>

definition parseEqn ::
  "Parser \<Rightarrow> string list \<Rightarrow> panic + (string list \<times> Equation option \<times> Unexpected option)" where
  "parseEqn p tokens =
     (case parseExpr p 0 tokens of
        Inl pn \<Rightarrow> Inl pn
      | Inr (lo, lhs, err) \<Rightarrow>
          if err \<noteq> None then Inr (lo, None, err)
          else
            (case lo of
               [] \<Rightarrow> Inl IndexOutOfRange
             | l # rest \<Rightarrow>
                 if l \<noteq> ''='' then Inr (lo, None, Some \<lparr>Found = l, Expecting = ''=''\<rparr>)
                 else
                   (case parseExpr p 0 rest of
                      Inl pn \<Rightarrow> Inl pn
                    | Inr (lo', rhs, err') \<Rightarrow>
                        if err' \<noteq> None then Inr (lo', None, err')
                        else Inr (lo', Some (Equation lhs rhs), None))))"

text \<open>
  The two entry points. Both return a pair of a tree and an error; a panic inside the
  parser leaves through them.
\<close>

definition ParseExpr :: "Parser \<Rightarrow> string \<Rightarrow> panic + (Expr \<times> Unexpected option)" where
  "ParseExpr p source =
     (case tokenize source of
        (tokens, Some err) \<Rightarrow> Inr (NilExpr, Some err)
      | (tokens, None) \<Rightarrow>
          (case parseExpr p 0 tokens of
             Inl pn \<Rightarrow> Inl pn
           | Inr (lo, e, err) \<Rightarrow>
               if err \<noteq> None then Inr (NilExpr, err)
               else
                 (case lo of
                    [] \<Rightarrow> Inl IndexOutOfRange
                  | l # rest \<Rightarrow>
                      if length lo > 1 \<or> l \<noteq> ''''
                      then Inr (NilExpr, Some \<lparr>Found = l, Expecting = ''end-of-input''\<rparr>)
                      else Inr (e, None))))"

definition Parse :: "Parser \<Rightarrow> string \<Rightarrow> panic + (Equation option \<times> Unexpected option)" where
  "Parse p source =
     (case tokenize source of
        (tokens, Some err) \<Rightarrow> Inr (None, Some err)
      | (tokens, None) \<Rightarrow>
          (case parseEqn p tokens of
             Inl pn \<Rightarrow> Inl pn
           | Inr (lo, e, err) \<Rightarrow>
               (case lo of
                  [] \<Rightarrow> Inl IndexOutOfRange
                | l # rest \<Rightarrow>
                    if (length lo > 1 \<or> l \<noteq> '''') \<and> err = None
                    then Inr (None, Some \<lparr>Found = l, Expecting = ''end-of-input''\<rparr>)
                    else Inr (e, err))))"

section \<open>The order in which the parser calls itself\<close>

text \<open>
  A call of one of the four mutually recursive functions is a value of \<open>parseCall\<close>:
  \<^verbatim>\<open>parseSingle\<close>, the application loop, \<^verbatim>\<open>parseExpr\<close> and the left-infix loop, in
  this order. \<open>callMeasure\<close> gives a call the number of tokens it is handed and, second,
  the number of precedence levels still above it (\<^verbatim>\<open>parseSingle\<close> and the left-infix
  loop, whose every call is on fewer tokens, lie below all levels).
\<close>

type_synonym parseCall =
  "(Parser \<times> string list \<times> bool + Parser \<times> string list \<times> Expr)
   + (Parser \<times> nat \<times> string list
      + Parser \<times> nat \<times> string list \<times> Expr \<times> Unexpected option)"

fun callMeasure :: "parseCall \<Rightarrow> nat \<times> nat" where
  "callMeasure (Inl (Inl (p, tokens, inApp))) = (length tokens, 0)"
| "callMeasure (Inl (Inr (p, lo, e))) = (length lo, 1)"
| "callMeasure (Inr (Inl (p, prec, tokens))) =
     (length tokens, 1 + (length (Operators p) - prec))"
| "callMeasure (Inr (Inr (p, prec, lo, e, err))) = (length lo, 0)"

definition callOrder :: "(parseCall \<times> parseCall) set" where
  "callOrder = inv_image (less_than <*lex*> less_than) callMeasure"

abbreviation inSingle :: "Parser \<Rightarrow> string list \<Rightarrow> bool \<Rightarrow> parseCall" where
  "inSingle p tokens inApp \<equiv> Inl (Inl (p, tokens, inApp))"

abbreviation inApplyLoop :: "Parser \<Rightarrow> string list \<Rightarrow> Expr \<Rightarrow> parseCall" where
  "inApplyLoop p lo e \<equiv> Inl (Inr (p, lo, e))"

abbreviation inExpr :: "Parser \<Rightarrow> nat \<Rightarrow> string list \<Rightarrow> parseCall" where
  "inExpr p prec tokens \<equiv> Inr (Inl (p, prec, tokens))"

abbreviation inLeftLoop ::
  "Parser \<Rightarrow> nat \<Rightarrow> string list \<Rightarrow> Expr \<Rightarrow> Unexpected option \<Rightarrow> parseCall" where
  "inLeftLoop p prec lo e err \<equiv> Inr (Inr (p, prec, lo, e, err))"

text \<open>
  \<open>calls callee caller\<close>: the body of \<open>caller\<close> makes the call \<open>callee\<close>. There is
  one rule for each call in the source, under the tests that lead to it; a call made after
  an earlier one has returned is made on what that one returned.
\<close>

inductive calls :: "parseCall \<Rightarrow> parseCall \<Rightarrow> bool" where
  single_apply:
    "isVar t \<Longrightarrow> \<not> inApp \<Longrightarrow>
       calls (inApplyLoop p rest (Var t)) (inSingle p (t # rest) inApp)"
| single_parens:
    "\<not> isVar t \<Longrightarrow> find (\<lambda>g. t = Left g) (Parens p) = Some g \<Longrightarrow>
       calls (inExpr p 0 rest) (inSingle p (t # rest) inApp)"
| single_brackets:
    "\<not> isVar t \<Longrightarrow> find (\<lambda>g. t = Left g) (Parens p) = None \<Longrightarrow>
     find (\<lambda>g. t = Left g) (Brackets p) = Some g \<Longrightarrow>
     \<not> (length (t # rest) > 1 \<and> (t # rest) ! 1 = Right g) \<Longrightarrow>
       calls (inExpr p 0 rest) (inSingle p (t # rest) inApp)"
| apply_operand:
    "list_ex (\<lambda>g. l = Left g) (Parens p @ Brackets p) \<or> (isVar l \<and> AdjacentIsApplication p) \<Longrightarrow>
       calls (inSingle p (l # rest) True) (inApplyLoop p (l # rest) e)"
| apply_again:
    "list_ex (\<lambda>g. l = Left g) (Parens p @ Brackets p) \<or> (isVar l \<and> AdjacentIsApplication p) \<Longrightarrow>
     parseSingle p (l # rest) True = Inr (lo', e2, None) \<Longrightarrow>
       calls (inApplyLoop p lo' (Apply e e2)) (inApplyLoop p (l # rest) e)"
| expr_single:
    "prec \<ge> length (Operators p) \<Longrightarrow>
       calls (inSingle p tokens False) (inExpr p prec tokens)"
| prefix_same:
    "prec < length (Operators p) \<Longrightarrow> Type (Operators p ! prec) = Prefix \<Longrightarrow>
     isOp glyph (Glyphs (Operators p ! prec)) \<Longrightarrow>
       calls (inExpr p prec rest) (inExpr p prec (glyph # rest))"
| prefix_next:
    "prec < length (Operators p) \<Longrightarrow> Type (Operators p ! prec) = Prefix \<Longrightarrow>
     \<not> isOp glyph (Glyphs (Operators p ! prec)) \<Longrightarrow>
       calls (inExpr p (prec + 1) (glyph # rest)) (inExpr p prec (glyph # rest))"
| left_first:
    "prec < length (Operators p) \<Longrightarrow> Type (Operators p ! prec) = InfixLeft \<Longrightarrow>
       calls (inExpr p (prec + 1) tokens) (inExpr p prec tokens)"
| left_loop:
    "prec < length (Operators p) \<Longrightarrow> Type (Operators p ! prec) = InfixLeft \<Longrightarrow>
     parseExpr p (prec + 1) tokens = Inr (lo, e, err) \<Longrightarrow>
       calls (inLeftLoop p prec lo e err) (inExpr p prec tokens)"
| right_first:
    "prec < length (Operators p) \<Longrightarrow> Type (Operators p ! prec) = InfixRight \<Longrightarrow>
       calls (inExpr p (prec + 1) tokens) (inExpr p prec tokens)"
| right_same:
    "prec < length (Operators p) \<Longrightarrow> Type (Operators p ! prec) = InfixRight \<Longrightarrow>
     parseExpr p (prec + 1) tokens = Inr (glyph # rest, e, None) \<Longrightarrow>
     isOp glyph (Glyphs (Operators p ! prec)) \<Longrightarrow>
       calls (inExpr p prec rest) (inExpr p prec tokens)"
| suffix_first:
    "prec < length (Operators p) \<Longrightarrow> Type (Operators p ! prec) = Suffix \<Longrightarrow>
       calls (inExpr p (prec + 1) tokens) (inExpr p prec tokens)"
| loop_operand:
    "isOp glyph (Glyphs (Operators p ! prec)) \<Longrightarrow>
       calls (inExpr p (prec + 1) rest) (inLeftLoop p prec (glyph # rest) e err)"
| loop_again:
    "isOp glyph (Glyphs (Operators p ! prec)) \<Longrightarrow>
     parseExpr p (prec + 1) rest = Inr (lo', e2, None) \<Longrightarrow>
       calls (inLeftLoop p prec lo' (Binary glyph e e2) None)
             (inLeftLoop p prec (glyph # rest) e err)"

section \<open>The language of a grammar, after the specification\<close>

text \<open>
  \<open>opensGroup p t\<close>: the token opens a transparent or a structural group.
  \<open>stopAt p k t\<close>: the token cannot continue a phrase of level \<open>k\<close>; it starts no
  atom and is no infix or suffix glyph of level \<open>k\<close> or of a tighter level.
  \<open>startsAt p k t\<close>: the token can start a phrase of level \<open>k\<close>; it starts an atom or
  is a prefix glyph of level \<open>k\<close> or of a tighter level.
\<close>

definition opensGroup :: "Parser \<Rightarrow> string \<Rightarrow> bool" where
  "opensGroup p t = list_ex (\<lambda>g. t = Left g) (Parens p @ Brackets p)"

definition stopAt :: "Parser \<Rightarrow> nat \<Rightarrow> string \<Rightarrow> bool" where
  "stopAt p k t =
     (\<not> isVar t \<and> \<not> opensGroup p t
      \<and> \<not> list_ex (\<lambda>op. Type op \<noteq> Prefix \<and> isOp t (Glyphs op)) (drop k (Operators p)))"

definition startsAt :: "Parser \<Rightarrow> nat \<Rightarrow> string \<Rightarrow> bool" where
  "startsAt p k t =
     (isVar t \<or> opensGroup p t
      \<or> list_ex (\<lambda>op. Type op = Prefix \<and> isOp t (Glyphs op)) (drop k (Operators p)))"

text \<open>
  The three relations below are written from the specification (section 4.2), not from
  the code; the theorems compare \<^verbatim>\<open>parseSingle\<close> and \<^verbatim>\<open>parseExpr\<close> with them.
  \<open>specAtom p ts e\<close>: the tokens \<open>ts\<close> are one operand with the tree \<open>e\<close>, that is a
  variable, a transparent group around a phrase of level 0, an empty structural group, or
  a structural group around a phrase of level 0.
  \<open>specApplied p ts e\<close>: a variable followed by any number of operands, folded to the
  left into applications (an operand that is a variable needs the juxtaposition flag).
  \<open>specPhrase p k ts e\<close>: the tokens are a phrase of precedence level \<open>k\<close> with the tree
  \<open>e\<close>. Past the last level a phrase is an application chain or a single group. At a
  level of the table a phrase is a phrase of the next level, or: a prefix glyph before a
  phrase of the same level; a phrase of the same level, a left-infix glyph and a phrase of
  the next level; a phrase of the next level, a right-infix glyph and a phrase of the same
  level; a phrase of the same level followed by a suffix glyph.
\<close>

inductive specAtom :: "Parser \<Rightarrow> string list \<Rightarrow> Expr \<Rightarrow> bool"
  and specApplied :: "Parser \<Rightarrow> string list \<Rightarrow> Expr \<Rightarrow> bool"
  and specPhrase :: "Parser \<Rightarrow> nat \<Rightarrow> string list \<Rightarrow> Expr \<Rightarrow> bool"
where
  atom_var:
    "isVar v \<Longrightarrow> specAtom p [v] (Var v)"
| atom_parens:
    "g \<in> set (Parens p) \<Longrightarrow> specPhrase p 0 ts e \<Longrightarrow>
       specAtom p (Left g # ts @ [Right g]) e"
| atom_empty:
    "g \<in> set (Brackets p) \<Longrightarrow> specAtom p [Left g, Right g] (Var (Left g @ Right g))"
| atom_brackets:
    "g \<in> set (Brackets p) \<Longrightarrow> specPhrase p 0 ts e \<Longrightarrow>
       specAtom p (Left g # ts @ [Right g]) (Unary (Left g @ Right g) e)"
| applied_var:
    "isVar v \<Longrightarrow> specApplied p [v] (Var v)"
| applied_more:
    "specApplied p ts f \<Longrightarrow> specAtom p os e \<Longrightarrow>
     AdjacentIsApplication p \<or> \<not> isVar (hd os) \<Longrightarrow>
       specApplied p (ts @ os) (Apply f e)"
| phrase_applied:
    "length (Operators p) \<le> k \<Longrightarrow> specApplied p ts e \<Longrightarrow> specPhrase p k ts e"
| phrase_group:
    "length (Operators p) \<le> k \<Longrightarrow> specAtom p ts e \<Longrightarrow> \<not> isVar (hd ts) \<Longrightarrow>
       specPhrase p k ts e"
| phrase_tighter:
    "k < length (Operators p) \<Longrightarrow> specPhrase p (k + 1) ts e \<Longrightarrow> specPhrase p k ts e"
| phrase_prefix:
    "k < length (Operators p) \<Longrightarrow> Type (Operators p ! k) = Prefix \<Longrightarrow>
     isOp g (Glyphs (Operators p ! k)) \<Longrightarrow> specPhrase p k ts e \<Longrightarrow>
       specPhrase p k (g # ts) (Unary g e)"
| phrase_left_assoc:
    "k < length (Operators p) \<Longrightarrow> Type (Operators p ! k) = InfixLeft \<Longrightarrow>
     isOp g (Glyphs (Operators p ! k)) \<Longrightarrow>
     specPhrase p k ts1 e1 \<Longrightarrow> specPhrase p (k + 1) ts2 e2 \<Longrightarrow>
       specPhrase p k (ts1 @ g # ts2) (Binary g e1 e2)"
| phrase_right_assoc:
    "k < length (Operators p) \<Longrightarrow> Type (Operators p ! k) = InfixRight \<Longrightarrow>
     isOp g (Glyphs (Operators p ! k)) \<Longrightarrow>
     specPhrase p (k + 1) ts1 e1 \<Longrightarrow> specPhrase p k ts2 e2 \<Longrightarrow>
       specPhrase p k (ts1 @ g # ts2) (Binary g e1 e2)"
| phrase_suffix:
    "k < length (Operators p) \<Longrightarrow> Type (Operators p ! k) = Suffix \<Longrightarrow>
     isOp g (Glyphs (Operators p ! k)) \<Longrightarrow> specPhrase p k ts e \<Longrightarrow>
       specPhrase p k (ts @ [g]) (Unary g e)"

text \<open>
  What the proof shows of every phrase of \<^verbatim>\<open>PEMDAS\<close>: \<^verbatim>\<open>parseExpr\<close> at level \<open>k\<close>
  returns its tree and stops before a token that cannot continue it; at a left-infix or
  suffix level it has entered the loop of that level when the next token cannot continue
  the tighter level.
\<close>

definition parsesAt :: "nat \<Rightarrow> string list \<Rightarrow> Expr \<Rightarrow> bool" where
  "parsesAt k ts e =
     ((\<forall>t rest. stopAt PEMDAS k t \<longrightarrow>
         parseExpr PEMDAS k (ts @ t # rest) = Inr (t # rest, e, None))
      \<and> (k < 6 \<and> Type (Operators PEMDAS ! k) = InfixLeft \<longrightarrow>
           (\<forall>t rest. stopAt PEMDAS (k + 1) t \<longrightarrow>
              parseExpr PEMDAS k (ts @ t # rest) = infixLeftLoop PEMDAS k (t # rest) e None))
      \<and> (k < 6 \<and> Type (Operators PEMDAS ! k) = Suffix \<longrightarrow>
           (\<forall>t rest. stopAt PEMDAS (k + 1) t \<longrightarrow>
              parseExpr PEMDAS k (ts @ t # rest)
                = suffixLoop (Glyphs (Operators PEMDAS ! k)) (t # rest) e)))"

section \<open>An invariant of the scan\<close>

text \<open>
  What holds of the state \<^verbatim>\<open>(st, matches, buf)\<close> after the tokenizer has read \<open>text\<close>:
  nothing has been done before the first rune; afterwards the buffer ends with the last
  rune read; a predicate kept in \<^verbatim>\<open>st\<close> is one of the last three of \<^verbatim>\<open>tokenPreds\<close>
  and holds of the last rune read; no token emitted is empty or starts with whitespace.
\<close>

definition scanInv :: "string \<Rightarrow> scanState \<Rightarrow> bool" where
  "scanInv text s = (case s of (st, m, b) \<Rightarrow>
      (text = [] \<longrightarrow> st = None \<and> m = [] \<and> b = [])
    \<and> (text \<noteq> [] \<longrightarrow> b \<noteq> [] \<and> last b = last text)
    \<and> (\<forall>P. st = Some P \<longrightarrow> P (last text) \<and> (P = IsLetter \<or> P = IsDigit \<or> P = isWsp))
    \<and> list_all (\<lambda>t. t \<noteq> [] \<and> \<not> isWsp (hd t)) m)"

section \<open>Termination of the parser\<close>

text \<open>
  The loops call the parser on what an earlier call left over, so termination needs that
  no call returns more tokens than it was given, and that \<^verbatim>\<open>parseSingle\<close> returns fewer
  when it succeeds. This is first shown for the arguments on which the recursion is
  known to end.
\<close>

lemma suffixLoop_length:
  "suffixLoop glyphs lo e = Inr (lo', e', err') \<Longrightarrow> length lo' \<le> length lo"
  by (induction glyphs lo e rule: suffixLoop.induct) (auto split: if_splits)

lemma parse_length_partial:
  "parseSingle_applyLoop_parseExpr_infixLeftLoop_dom (Inl (Inl (p, tokens, inApp))) \<Longrightarrow>
     (\<forall>lo e err. parseSingle p tokens inApp = Inr (lo, e, err) \<longrightarrow>
        length lo \<le> length tokens \<and> (err = None \<longrightarrow> length lo < length tokens))"
  "parseSingle_applyLoop_parseExpr_infixLeftLoop_dom (Inl (Inr (p, lo0, e0))) \<Longrightarrow>
     (\<forall>lo e err. applyLoop p lo0 e0 = Inr (lo, e, err) \<longrightarrow> length lo \<le> length lo0)"
  "parseSingle_applyLoop_parseExpr_infixLeftLoop_dom (Inr (Inl (p, prec, tokens))) \<Longrightarrow>
     (\<forall>lo e err. parseExpr p prec tokens = Inr (lo, e, err) \<longrightarrow> length lo \<le> length tokens)"
  "parseSingle_applyLoop_parseExpr_infixLeftLoop_dom (Inr (Inr (p, prec, lo0, e0, err0))) \<Longrightarrow>
     (\<forall>lo e err. infixLeftLoop p prec lo0 e0 err0 = Inr (lo, e, err) \<longrightarrow> length lo \<le> length lo0)"
proof (induct rule: parseSingle_applyLoop_parseExpr_infixLeftLoop.pinduct)
  case (1 p tokens inApp)
  show ?case
  proof (intro allI impI)
    fix lo e err
    assume res: "parseSingle p tokens inApp = Inr (lo, e, err)"
    note eq = res [unfolded parseSingle.psimps [OF "1.hyps"(1)]]
    show "length lo \<le> length tokens \<and> (err = None \<longrightarrow> length lo < length tokens)"
    proof (cases tokens)
      case Nil
      with eq show ?thesis by simp
    next
      case (Cons t rest)
      note tk = Cons
      show ?thesis
      proof (cases "isVar t")
        case True
        with eq tk "1.hyps"(2) [OF tk True] show ?thesis
          by (cases inApp) auto
      next
        case nv: False
        show ?thesis
        proof (cases "find (\<lambda>g. t = Left g) (Parens p)")
          case (Some g)
          from "1.hyps"(4) [OF tk nv Some] have ih:
            "\<And>lo e err. parseExpr p 0 rest = Inr (lo, e, err) \<Longrightarrow> length lo \<le> length rest"
            by blast
          from eq tk nv Some ih show ?thesis
            by (auto split: sum.splits prod.splits list.splits if_splits)
        next
          case np: None
          show ?thesis
          proof (cases "find (\<lambda>g. t = Left g) (Brackets p)")
            case None
            with eq tk nv np show ?thesis by auto
          next
            case (Some g)
            show ?thesis
            proof (cases "length tokens > 1 \<and> tokens ! 1 = Right g")
              case True
              with eq tk nv np Some show ?thesis by auto
            next
              case False
              from "1.hyps"(3) [OF tk nv np Some False] have ih:
                "\<And>lo e err. parseExpr p 0 rest = Inr (lo, e, err) \<Longrightarrow> length lo \<le> length rest"
                by blast
              from eq tk nv np Some False have eq': "(case parseExpr p 0 rest of
                           Inl pn \<Rightarrow> Inl pn
                         | Inr (lo, e, err) \<Rightarrow>
                             (case lo of
                                [] \<Rightarrow> Inl IndexOutOfRange
                              | l # lo' \<Rightarrow>
                                  if l \<noteq> Right g
                                  then Inr (lo, NilExpr,
                                         Some \<lparr>Found = l, Expecting = Quote (Right g)\<rparr>)
                                  else Inr (lo', Unary (Left g @ Right g) e, err))) = Inr (lo, e, err)"
                by (cases rest) auto
              from eq' ih tk show ?thesis
                by (auto split: sum.splits prod.splits list.splits if_splits)
            qed
          qed
        qed
      qed
    qed
  qed
next
  case (2 p lo e)
  show ?case
  proof (intro allI impI)
    fix lo1 e1 err1
    assume res: "applyLoop p lo e = Inr (lo1, e1, err1)"
    note eq = res [unfolded applyLoop.psimps [OF "2.hyps"(1)]]
    show "length lo1 \<le> length lo"
    proof (cases lo)
      case Nil
      with eq show ?thesis by simp
    next
      case (Cons l rest)
      show ?thesis
      proof (cases "list_ex (\<lambda>g. l = Left g) (Parens p @ Brackets p)
                    \<or> (isVar l \<and> AdjacentIsApplication p)")
        case False
        with eq Cons show ?thesis by auto
      next
        case True
        note ih1 = "2.hyps"(2) [OF Cons True]
        show ?thesis
        proof (cases "parseSingle p lo True")
          case (Inl pn)
          with eq Cons True show ?thesis by simp
        next
          case (Inr b)
          obtain lo2 e2 err2 where b: "b = (lo2, e2, err2)" by (cases b) auto
          from ih1 Inr b have len: "length lo2 \<le> length lo"
            and slen: "err2 = None \<Longrightarrow> length lo2 < length lo" by auto
          show ?thesis
          proof (cases "err2 = None")
            case False
            with eq Cons True Inr b len show ?thesis by auto
          next
            case none: True
            then have "\<not> err2 \<noteq> None" by simp
            from "2.hyps"(3) [OF Cons True Inr b [symmetric] refl this]
            have ih2: "\<And>lo' e' err'. applyLoop p lo2 (Apply e e2) = Inr (lo', e', err')
                         \<Longrightarrow> length lo' \<le> length lo2" by blast
            from eq Cons True Inr b none have "applyLoop p lo2 (Apply e e2) = Inr (lo1, e1, err1)"
              by auto
            from ih2 [OF this] slen [OF none] show ?thesis by simp
          qed
        qed
      qed
    qed
  qed
next
  case (3 p prec tokens)
  show ?case
  proof (intro allI impI)
    fix lo e err
    assume res: "parseExpr p prec tokens = Inr (lo, e, err)"
    note eq = res [unfolded parseExpr.psimps [OF "3.hyps"(1)]]
    show "length lo \<le> length tokens"
    proof (cases "length (Operators p) \<le> prec")
      case True
      with eq "3.hyps"(2) [OF True] show ?thesis by simp
    next
      case lt: False
      show ?thesis
      proof (cases "Type (Operators p ! prec)")
        case InfixLeft
        note ih1 = "3.hyps"(3) [OF lt InfixLeft]
        show ?thesis
        proof (cases "parseExpr p (prec + 1) tokens")
          case (Inl pn)
          with eq lt InfixLeft show ?thesis by simp
        next
          case (Inr b)
          obtain lo2 e2 err2 where b: "b = (lo2, e2, err2)" by (cases b) auto
          from ih1 Inr b have len: "length lo2 \<le> length tokens" by auto
          from "3.hyps"(4) [OF lt InfixLeft Inr b [symmetric] refl]
          have ih2: "\<And>lo' e' err'. infixLeftLoop p prec lo2 e2 err2 = Inr (lo', e', err')
                         \<Longrightarrow> length lo' \<le> length lo2" by blast
          from eq lt InfixLeft Inr b have "infixLeftLoop p prec lo2 e2 err2 = Inr (lo, e, err)"
            by simp
          from ih2 [OF this] len show ?thesis by simp
        qed
      next
        case InfixRight
        note ih1 = "3.hyps"(5) [OF lt InfixRight]
        show ?thesis
        proof (cases "parseExpr p (prec + 1) tokens")
          case (Inl pn)
          with eq lt InfixRight show ?thesis by simp
        next
          case (Inr b)
          obtain lo2 e2 err2 where b: "b = (lo2, e2, err2)" by (cases b) auto
          from ih1 Inr b have len: "length lo2 \<le> length tokens" by auto
          show ?thesis
          proof (cases "err2 = None")
            case False
            with eq lt InfixRight Inr b len show ?thesis by auto
          next
            case none: True
            then have nn: "\<not> err2 \<noteq> None" by simp
            show ?thesis
            proof (cases lo2)
              case Nil
              with eq lt InfixRight Inr b none show ?thesis by simp
            next
              case (Cons glyph rest)
              show ?thesis
              proof (cases "isOp glyph (Glyphs (Operators p ! prec))")
                case False
                with eq lt InfixRight Inr b none Cons len show ?thesis by auto
              next
                case True
                from "3.hyps"(6) [OF lt InfixRight Inr b [symmetric] refl nn Cons True]
                have ih2: "\<And>lo' e' err'. parseExpr p prec rest = Inr (lo', e', err')
                         \<Longrightarrow> length lo' \<le> length rest" by blast
                from eq lt InfixRight Inr b none Cons True ih2 len show ?thesis
                  by (auto split: sum.splits prod.splits list.splits if_splits)
              qed
            qed
          qed
        qed
      next
        case Prefix
        show ?thesis
        proof (cases tokens)
          case Nil
          with eq lt Prefix show ?thesis by simp
        next
          case (Cons glyph rest)
          show ?thesis
          proof (cases "isOp glyph (Glyphs (Operators p ! prec))")
            case True
            from "3.hyps"(7) [OF lt Prefix Cons True]
            have ih: "\<And>lo' e' err'. parseExpr p prec rest = Inr (lo', e', err')
                         \<Longrightarrow> length lo' \<le> length rest" by blast
            from eq lt Prefix Cons True ih show ?thesis
              by (auto split: sum.splits prod.splits if_splits)
          next
            case False
            from "3.hyps"(8) [OF lt Prefix Cons False] eq lt Prefix Cons False
            show ?thesis by simp
          qed
        qed
      next
        case Suffix
        from "3.hyps"(9) [OF lt Suffix]
        have ih: "\<And>lo' e' err'. parseExpr p (prec + 1) tokens = Inr (lo', e', err')
                         \<Longrightarrow> length lo' \<le> length tokens" by blast
        from eq lt Suffix ih show ?thesis
          by (auto split: sum.splits prod.splits if_splits dest!: suffixLoop_length)
      next
        case OtherOpType
        with eq lt show ?thesis by simp
      qed
    qed
  qed
next
  case (4 p prec lo e err)
  show ?case
  proof (intro allI impI)
    fix lo1 e1 err1
    assume res: "infixLeftLoop p prec lo e err = Inr (lo1, e1, err1)"
    note eq = res [unfolded infixLeftLoop.psimps [OF "4.hyps"(1)]]
    show "length lo1 \<le> length lo"
    proof (cases lo)
      case Nil
      with eq show ?thesis by simp
    next
      case (Cons glyph rest)
      show ?thesis
      proof (cases "isOp glyph (Glyphs (Operators p ! prec))")
        case False
        with eq Cons show ?thesis by auto
      next
        case True
        note ih1 = "4.hyps"(2) [OF Cons True]
        show ?thesis
        proof (cases "parseExpr p (prec + 1) rest")
          case (Inl pn)
          with eq Cons True show ?thesis by simp
        next
          case (Inr b)
          obtain lo2 e2 err2 where b: "b = (lo2, e2, err2)" by (cases b) auto
          from ih1 Inr b have len: "length lo2 \<le> length rest" by auto
          show ?thesis
          proof (cases "err2 = None")
            case False
            with eq Cons True Inr b len show ?thesis by auto
          next
            case none: True
            then have "\<not> err2 \<noteq> None" by simp
            from "4.hyps"(3) [OF Cons True Inr b [symmetric] refl this]
            have ih2: "\<And>lo' e' err'.
                         infixLeftLoop p prec lo2 (Binary glyph e e2) None = Inr (lo', e', err')
                         \<Longrightarrow> length lo' \<le> length lo2" by blast
            from eq Cons True Inr b none
            have "infixLeftLoop p prec lo2 (Binary glyph e e2) None = Inr (lo1, e1, err1)"
              by auto
            from ih2 [OF this] len Cons show ?thesis by simp
          qed
        qed
      qed
    qed
  qed
qed


lemma wf_callOrder: "wf callOrder"
  unfolding callOrder_def by (intro wf_inv_image wf_lex_prod wf_less_than)

lemma parse_total: "All parseSingle_applyLoop_parseExpr_infixLeftLoop_dom"
proof (relation callOrder, goal_cases)
  case 1
  show ?case by (rule wf_callOrder)
next
  case 2 then show ?case by (simp add: callOrder_def)
next
  case 3 then show ?case by (simp add: callOrder_def)
next
  case 4 then show ?case by (simp add: callOrder_def)
next
  case 5 then show ?case by (simp add: callOrder_def)
next
  case (6 p lo e x21 x22 b x y xa ya)
  from parse_length_partial(1) [OF 6(7)] 6(3,4,5,6) have "length x < length lo" by auto
  then show ?case by (simp add: callOrder_def)
next
  case 7 then show ?case by (simp add: callOrder_def)
next
  case 8 then show ?case by (auto simp add: callOrder_def)
next
  case (9 p prec tokens b x y xa ya)
  from parse_length_partial(3) [OF 9(6)] 9(3,4,5) have "length x \<le> length tokens" by auto
  then show ?case by (auto simp add: callOrder_def)
next
  case 10 then show ?case by (auto simp add: callOrder_def)
next
  case (11 p prec tokens b x y xa ya x21 x22)
  from parse_length_partial(3) [OF 11(9)] 11(3,4,5) have "length x \<le> length tokens" by auto
  with 11(7) show ?case by (auto simp add: callOrder_def)
next
  case 12 then show ?case by (simp add: callOrder_def)
next
  case 13 then show ?case by (auto simp add: callOrder_def)
next
  case 14 then show ?case by (auto simp add: callOrder_def)
next
  case 15 then show ?case by (simp add: callOrder_def)
next
  case (16 p prec lo e err x21 x22 b x y xa ya)
  from parse_length_partial(3) [OF 16(7)] 16(3,4,5) have "length x \<le> length x22" by auto
  with 16(1) show ?case by (simp add: callOrder_def)
qed

termination parseSingle
  by (rule parse_total)

declare parseSingle.simps [simp del] applyLoop.simps [simp del]
  parseExpr.simps [simp del] infixLeftLoop.simps [simp del]

lemma parseSingle_length:
  "parseSingle p tokens inApp = Inr (lo, e, err) \<Longrightarrow>
     length lo \<le> length tokens \<and> (err = None \<longrightarrow> length lo < length tokens)"
  using parse_length_partial(1) [OF parse_total [THEN spec], of p tokens inApp] by blast

lemma applyLoop_length:
  "applyLoop p lo0 e0 = Inr (lo, e, err) \<Longrightarrow> length lo \<le> length lo0"
  using parse_length_partial(2) [OF parse_total [THEN spec], of p lo0 e0] by blast

lemma parseExpr_length:
  "parseExpr p prec tokens = Inr (lo, e, err) \<Longrightarrow> length lo \<le> length tokens"
  using parse_length_partial(3) [OF parse_total [THEN spec], of p prec tokens] by blast

lemma infixLeftLoop_length:
  "infixLeftLoop p prec lo0 e0 err0 = Inr (lo, e, err) \<Longrightarrow> length lo \<le> length lo0"
  using parse_length_partial(4) [OF parse_total [THEN spec], of p prec lo0 e0 err0] by blast

lemma calls_descend: "calls callee caller \<Longrightarrow> (callee, caller) \<in> callOrder"
proof (induction rule: calls.induct)
  case (apply_again l p rest lo' e2 e)
  from parseSingle_length [OF apply_again(2)] show ?case by (simp add: callOrder_def)
next
  case (left_loop prec p tokens lo e err)
  from parseExpr_length [OF left_loop(3)] left_loop(1) show ?case
    by (auto simp add: callOrder_def)
next
  case (right_same prec p tokens glyph rest e)
  from parseExpr_length [OF right_same(3)] show ?case by (simp add: callOrder_def)
next
  case (loop_again glyph p prec rest lo' e2 e err)
  from parseExpr_length [OF loop_again(2)] show ?case by (simp add: callOrder_def)
qed (auto simp add: callOrder_def)

lemma calls_measure:
  "((callee, caller) \<in> callOrder) =
     (fst (callMeasure callee) < fst (callMeasure caller)
      \<or> fst (callMeasure callee) = fst (callMeasure caller)
         \<and> snd (callMeasure callee) < snd (callMeasure caller))"
  by (cases "callMeasure callee"; cases "callMeasure caller") (simp add: callOrder_def)

text \<open>
  Claim C10. For every grammar specification and every token sequence, \<^verbatim>\<open>parseSingle\<close>,
  \<^verbatim>\<open>parseExpr\<close> and their loops terminate: every call lies in the accessible part of the
  relation between a call and the calls it makes. Each call made is on fewer tokens than
  its caller was given, or on as many tokens and with fewer precedence levels left (in
  the sense of \<open>callMeasure\<close>), and this order is well-founded. The descent rests on the
  two bounds stated last: no call returns more tokens than it was given, and
  \<^verbatim>\<open>parseSingle\<close> returns fewer when it returns no error. A panic counts as returning;
  the sequence need not end in the end-of-input marker.
\<close>

theorem parse_terminates:
  "(\<forall>call. parseSingle_applyLoop_parseExpr_infixLeftLoop_dom call)
   \<and> wf callOrder
   \<and> (\<forall>callee caller. calls callee caller \<longrightarrow>
         fst (callMeasure callee) < fst (callMeasure caller)
         \<or> fst (callMeasure callee) = fst (callMeasure caller)
            \<and> snd (callMeasure callee) < snd (callMeasure caller))
   \<and> (\<forall>p tokens inApp lo e err. parseSingle p tokens inApp = Inr (lo, e, err) \<longrightarrow>
         length lo \<le> length tokens \<and> (err = None \<longrightarrow> length lo < length tokens))
   \<and> (\<forall>p prec tokens lo e err. parseExpr p prec tokens = Inr (lo, e, err) \<longrightarrow>
         length lo \<le> length tokens)"
proof (intro conjI allI impI)
  fix call
  show "parseSingle_applyLoop_parseExpr_infixLeftLoop_dom call"
    using parse_total by blast
next
  show "wf callOrder" by (rule wf_callOrder)
next
  fix callee caller
  assume "calls callee caller"
  then have "(callee, caller) \<in> callOrder" by (rule calls_descend)
  then show "fst (callMeasure callee) < fst (callMeasure caller)
         \<or> fst (callMeasure callee) = fst (callMeasure caller)
            \<and> snd (callMeasure callee) < snd (callMeasure caller)"
    by (simp only: calls_measure)
next
  fix p tokens inApp lo e err
  assume "parseSingle p tokens inApp = Inr (lo, e, err)"
  then show "length lo \<le> length tokens" using parseSingle_length by blast
next
  fix p tokens inApp lo e and err :: "Unexpected option"
  assume "parseSingle p tokens inApp = Inr (lo, e, err)" and "err = None"
  then show "length lo < length tokens" using parseSingle_length by blast
next
  fix p prec tokens lo e err
  assume "parseExpr p prec tokens = Inr (lo, e, err)"
  then show "length lo \<le> length tokens" by (rule parseExpr_length)
qed

theorem parse_terminates_witness:
  "parseSingle_applyLoop_parseExpr_infixLeftLoop_dom (inExpr PEMDAS 0 [''a'', ''+'', ''b'', ''''])
   \<and> calls (inExpr PEMDAS (0 + 1) [''a'', ''+'', ''b'', ''''])
            (inExpr PEMDAS 0 [''a'', ''+'', ''b'', ''''])
   \<and> callMeasure (inExpr PEMDAS (0 + 1) [''a'', ''+'', ''b'', '''']) = (4, 6)
   \<and> callMeasure (inExpr PEMDAS 0 [''a'', ''+'', ''b'', '''']) = (4, 7)
   \<and> parseExpr PEMDAS 0 [''a'', ''+'', ''b'', '''']
       = Inr ([''''], Binary ''+'' (Var ''a'') (Var ''b''), None)
   \<and> length [''''::string] \<le> length [''a'', ''+'', ''b'', ''''::string]"
proof -
  have ev: "parseExpr PEMDAS 0 [''a'', ''+'', ''b'', '''']
       = Inr ([''''], Binary ''+'' (Var ''a'') (Var ''b''), None)"
    by code_simp
  have c: "calls (inExpr PEMDAS (0 + 1) [''a'', ''+'', ''b'', ''''])
                 (inExpr PEMDAS 0 [''a'', ''+'', ''b'', ''''])"
    by (rule calls.left_first) (simp_all add: PEMDAS_def)
  have m: "callMeasure (inExpr PEMDAS (0 + 1) [''a'', ''+'', ''b'', '''']) = (4, 6)"
    "callMeasure (inExpr PEMDAS 0 [''a'', ''+'', ''b'', '''']) = (4, 7)"
    by (simp_all add: PEMDAS_def)
  have d: "parseSingle_applyLoop_parseExpr_infixLeftLoop_dom
     (inExpr PEMDAS 0 [''a'', ''+'', ''b'', ''''])"
    using parse_terminates [THEN conjunct1, rule_format] .
  have "fst (callMeasure (inExpr PEMDAS (0 + 1) [''a'', ''+'', ''b'', '''']))
          < fst (callMeasure (inExpr PEMDAS 0 [''a'', ''+'', ''b'', '''']))
        \<or> fst (callMeasure (inExpr PEMDAS (0 + 1) [''a'', ''+'', ''b'', '''']))
          = fst (callMeasure (inExpr PEMDAS 0 [''a'', ''+'', ''b'', '''']))
          \<and> snd (callMeasure (inExpr PEMDAS (0 + 1) [''a'', ''+'', ''b'', '''']))
          < snd (callMeasure (inExpr PEMDAS 0 [''a'', ''+'', ''b'', '''']))"
    using parse_terminates [THEN conjunct2, THEN conjunct2, THEN conjunct1, rule_format, OF c] .
  moreover have "length [''''::string] \<le> length [''a'', ''+'', ''b'', ''''::string]"
    using parse_terminates
      [THEN conjunct2, THEN conjunct2, THEN conjunct2, THEN conjunct2, rule_format, OF ev] .
  ultimately show ?thesis using ev c m d by blast
qed

section \<open>Parsing with the default grammar\<close>

lemma pemdas_fields:
  "length (Operators PEMDAS) = 6"
  "Operators PEMDAS ! 0 = \<lparr>Glyphs = ['',''], Type = InfixLeft\<rparr>"
  "Operators PEMDAS ! 1 = \<lparr>Glyphs = [''+'', ''-''], Type = InfixLeft\<rparr>"
  "Operators PEMDAS ! 2 = \<lparr>Glyphs = [''*'', ''/'', [CHR 0x5C]], Type = InfixLeft\<rparr>"
  "Operators PEMDAS ! 3 = \<lparr>Glyphs = [''^''], Type = InfixRight\<rparr>"
  "Operators PEMDAS ! 4 = \<lparr>Glyphs = [''-'', ''+''], Type = Prefix\<rparr>"
  "Operators PEMDAS ! 5 = \<lparr>Glyphs = [[CHR 0x27]], Type = Suffix\<rparr>"
  "Parens PEMDAS = [\<lparr>Left = ''('', Right = '')''\<rparr>, \<lparr>Left = ''['', Right = '']''\<rparr>]"
  "Brackets PEMDAS = [\<lparr>Left = ''{'', Right = ''}''\<rparr>]"
  "AdjacentIsApplication PEMDAS"
  by (simp_all add: PEMDAS_def)

lemma isVar_not_glyph:
  assumes "isVar v"
  shows "v \<noteq> ''+''" "v \<noteq> ''-''" "v \<noteq> ''^''" "v \<noteq> [CHR 0x27]" "v \<noteq> ''''"
  using assms by (auto simp: isVar_def IsLetter_def IsDigit_def between_def)

text \<open>
  A variable followed by an operator of a looser level, or by the end-of-input marker, is
  parsed alone at each tighter level of \<^verbatim>\<open>PEMDAS\<close>.
\<close>

lemma pemdas_atom:
  assumes "isVar v" and "t \<in> {''+'', ''-'', ''^'', [CHR 0x27], ''''}"
  shows "parseSingle PEMDAS (v # t # rest) False = Inr (t # rest, Var v, None)"
proof -
  from assms(2) have "\<not> isVar t" using isVar_not_glyph by blast
  moreover from assms(2) have "\<not> list_ex (\<lambda>g. t = Left g) (Parens PEMDAS @ Brackets PEMDAS)"
    by (auto simp: pemdas_fields)
  ultimately show ?thesis using assms(1)
    by (simp add: parseSingle.simps applyLoop.simps pemdas_fields)
qed

lemma pemdas_level5:
  assumes "isVar v" and "t \<in> {''+'', ''-'', ''^'', ''''}"
  shows "parseExpr PEMDAS 5 (v # t # rest) = Inr (t # rest, Var v, None)"
proof -
  have six: "parseExpr PEMDAS 6 (v # t # rest) = Inr (t # rest, Var v, None)"
    using pemdas_atom [OF assms(1), of t rest] assms(2)
    by (subst parseExpr.simps) (auto simp add: pemdas_fields simp del: One_nat_def)
  from assms(2) have "\<not> isOp t [[CHR 0x27]]" by (auto simp: isOp_def)
  with six show ?thesis
    by (subst parseExpr.simps) (simp add: pemdas_fields del: One_nat_def)
qed

lemma pemdas_level4:
  assumes "isVar v" and "t \<in> {''+'', ''-'', ''^'', ''''}"
  shows "parseExpr PEMDAS 4 (v # t # rest) = Inr (t # rest, Var v, None)"
proof -
  from assms(1) have "\<not> isOp v [''-'', ''+'']"
    using isVar_not_glyph [OF assms(1)] by (auto simp: isOp_def)
  with pemdas_level5 [OF assms] show ?thesis
    by (subst parseExpr.simps) (simp add: pemdas_fields del: One_nat_def)
qed

lemma pemdas_level3:
  assumes "isVar v" and "t \<in> {''+'', ''-'', ''''}"
  shows "parseExpr PEMDAS 3 (v # t # rest) = Inr (t # rest, Var v, None)"
proof -
  from assms(2) have "\<not> isOp t [''^'']" by (auto simp: isOp_def)
  with pemdas_level4 [OF assms(1), of t rest] assms(2) show ?thesis
    by (subst parseExpr.simps) (auto simp add: pemdas_fields simp del: One_nat_def)
qed

lemma pemdas_level2:
  assumes "isVar v" and "t \<in> {''+'', ''-'', ''''}"
  shows "parseExpr PEMDAS 2 (v # t # rest) = Inr (t # rest, Var v, None)"
proof -
  from assms(2) have "\<not> isOp t [''*'', ''/'', [CHR 0x5C]]" by (auto simp: isOp_def)
  with pemdas_level3 [OF assms] show ?thesis
    by (subst parseExpr.simps) (simp add: pemdas_fields infixLeftLoop.simps del: One_nat_def)
qed


lemma pemdas_level0_end:
  assumes "parseExpr PEMDAS 3 tokens = Inr ('''' # rest, e, None)"
  shows "parseExpr PEMDAS 0 tokens = Inr ('''' # rest, e, None)"
proof -
  have stop: "\<And>k err. infixLeftLoop PEMDAS k ('''' # rest) e err = Inr ('''' # rest, e, err)"
    by (subst infixLeftLoop.simps) (simp add: isOp_def)
  have two: "parseExpr PEMDAS 2 tokens = Inr ('''' # rest, e, None)"
    using assms stop by (subst parseExpr.simps) (simp add: pemdas_fields del: One_nat_def)
  have one: "parseExpr PEMDAS 1 tokens = Inr ('''' # rest, e, None)"
    using two stop by (subst parseExpr.simps) (simp add: pemdas_fields del: One_nat_def)
  show ?thesis
    using one stop by (subst parseExpr.simps) (simp add: pemdas_fields del: One_nat_def)
qed

lemma pemdas_level3_end:
  assumes "parseExpr PEMDAS 4 tokens = Inr ('''' # rest, e, None)"
  shows "parseExpr PEMDAS 3 tokens = Inr ('''' # rest, e, None)"
  using assms by (subst parseExpr.simps) (simp add: pemdas_fields isOp_def del: One_nat_def)

lemma sum_tokens_head:
  assumes "list_all (\<lambda>(op, w). (op = ''+'' \<or> op = ''-'') \<and> isVar w) vs"
  obtains t rest where "concat (map (\<lambda>(op, w). [op, w]) vs) @ [''''] = t # rest"
    and "t \<in> {''+'', ''-'', ''''}"
  using assms by (cases vs) auto

lemma pemdas_sum_loop:
  assumes "list_all (\<lambda>(op, w). (op = ''+'' \<or> op = ''-'') \<and> isVar w) vs"
  shows "infixLeftLoop PEMDAS 1 (concat (map (\<lambda>(op, w). [op, w]) vs) @ ['''']) e None
           = Inr ([''''], foldl (\<lambda>e (op, w). Binary op e (Var w)) e vs, None)"
  using assms
proof (induction vs arbitrary: e)
  case Nil
  show ?case by (subst infixLeftLoop.simps) (simp add: isOp_def)
next
  case (Cons x vs)
  obtain op w where x: "x = (op, w)" by (cases x) auto
  from Cons.prems x have op: "op = ''+'' \<or> op = ''-''" and w: "isVar w"
    and vs: "list_all (\<lambda>(op, w). (op = ''+'' \<or> op = ''-'') \<and> isVar w) vs" by auto
  from vs obtain t rest where tl: "concat (map (\<lambda>(op, w). [op, w]) vs) @ [''''] = t # rest"
    and t: "t \<in> {''+'', ''-'', ''''}" by (rule sum_tokens_head)
  from op have isop: "isOp op [''+'', ''-'']" by (auto simp: isOp_def)
  have operand: "parseExpr PEMDAS 2 (w # t # rest) = Inr (t # rest, Var w, None)"
    by (rule pemdas_level2 [OF w t])
  have "infixLeftLoop PEMDAS 1 (concat (map (\<lambda>(op, w). [op, w]) (x # vs)) @ ['''']) e None
          = infixLeftLoop PEMDAS 1 (t # rest) (Binary op e (Var w)) None"
    using x tl isop operand by (subst infixLeftLoop.simps) (simp add: pemdas_fields del: One_nat_def)
  also have "\<dots> = Inr ([''''], foldl (\<lambda>e (op, w). Binary op e (Var w)) (Binary op e (Var w)) vs, None)"
    using Cons.IH [OF vs, of "Binary op e (Var w)"] tl by simp
  finally show ?case using x by simp
qed

lemma pemdas_sum:
  assumes "isVar v" and "list_all (\<lambda>(op, w). (op = ''+'' \<or> op = ''-'') \<and> isVar w) vs"
  shows "parseExpr PEMDAS 0 (v # concat (map (\<lambda>(op, w). [op, w]) vs) @ [''''])
           = Inr ([''''], foldl (\<lambda>e (op, w). Binary op e (Var w)) (Var v) vs, None)"
proof -
  from assms(2) obtain t rest where tl: "concat (map (\<lambda>(op, w). [op, w]) vs) @ [''''] = t # rest"
    and t: "t \<in> {''+'', ''-'', ''''}" by (rule sum_tokens_head)
  have two: "parseExpr PEMDAS 2 (v # t # rest) = Inr (t # rest, Var v, None)"
    by (rule pemdas_level2 [OF assms(1) t])
  have one: "parseExpr PEMDAS 1 (v # t # rest)
          = Inr ([''''], foldl (\<lambda>e (op, w). Binary op e (Var w)) (Var v) vs, None)"
    using two pemdas_sum_loop [OF assms(2), of "Var v"] tl
    by (subst parseExpr.simps) (simp add: pemdas_fields del: One_nat_def)
  have "parseExpr PEMDAS 0 (v # t # rest)
          = Inr ([''''], foldl (\<lambda>e (op, w). Binary op e (Var w)) (Var v) vs, None)"
    using one by (subst parseExpr.simps) (simp add: pemdas_fields infixLeftLoop.simps isOp_def del: One_nat_def)
  with tl show ?thesis by simp
qed

lemma pemdas_power_chain:
  assumes "list_all isVar ws" and "isVar v" and "t \<in> {''+'', ''-'', ''''}"
  shows "parseExpr PEMDAS 3 (concat (map (\<lambda>w. [w, ''^'']) ws) @ v # t # rest)
           = Inr (t # rest, foldr (\<lambda>w e. Binary ''^'' (Var w) e) ws (Var v), None)"
  using assms(1)
proof (induction ws)
  case Nil
  show ?case using pemdas_level3 [OF assms(2,3)] by simp
next
  case (Cons w ws)
  then have w: "isVar w" and ws: "list_all isVar ws" by auto
  have left: "parseExpr PEMDAS 4 (w # ''^'' # concat (map (\<lambda>w. [w, ''^'']) ws) @ v # t # rest)
                = Inr (''^'' # concat (map (\<lambda>w. [w, ''^'']) ws) @ v # t # rest, Var w, None)"
    by (rule pemdas_level4 [OF w]) simp
  show ?case
    using left Cons.IH [OF ws]
    by (subst parseExpr.simps) (simp add: pemdas_fields isOp_def del: One_nat_def)
qed

lemma pemdas_power:
  assumes "list_all isVar ws" and "isVar v"
  shows "parseExpr PEMDAS 0 (concat (map (\<lambda>w. [w, ''^'']) ws) @ [v, ''''])
           = Inr ([''''], foldr (\<lambda>w e. Binary ''^'' (Var w) e) ws (Var v), None)"
  using pemdas_power_chain [OF assms, of "''''" "[]"] by (intro pemdas_level0_end) simp


lemma suffixLoop_primes:
  assumes "\<not> isOp t [[CHR 0x27]]"
  shows "suffixLoop [[CHR 0x27]] (replicate n [CHR 0x27] @ t # rest) e
           = Inr (t # rest, (Unary [CHR 0x27] ^^ n) e, None)"
proof (induction n arbitrary: e)
  case 0
  from assms show ?case by simp
next
  case (Suc n)
  have "isOp [CHR 0x27] [[CHR 0x27]]" by (simp add: isOp_def)
  with Suc [of "Unary [CHR 0x27] e"] show ?case by (simp add: funpow_swap1)
qed

lemma pemdas_suffix_chain:
  assumes "isVar v" and "t \<in> {''+'', ''-'', ''^'', ''''}"
  shows "parseExpr PEMDAS 5 (v # replicate n [CHR 0x27] @ t # rest)
           = Inr (t # rest, (Unary [CHR 0x27] ^^ n) (Var v), None)"
proof -
  obtain t' rest' where tl: "replicate n [CHR 0x27] @ t # rest = t' # rest'"
    and t': "t' \<in> {''+'', ''-'', ''^'', [CHR 0x27], ''''}"
    using assms(2) by (cases n) auto
  have six: "parseExpr PEMDAS 6 (v # t' # rest') = Inr (t' # rest', Var v, None)"
    using pemdas_atom [OF assms(1) t', of rest']
    by (subst parseExpr.simps) (simp add: pemdas_fields)
  from assms(2) have "\<not> isOp t [[CHR 0x27]]" by (auto simp: isOp_def)
  from suffixLoop_primes [OF this, of n rest "Var v"] six tl show ?thesis
    by (subst parseExpr.simps) (simp add: pemdas_fields del: One_nat_def)
qed

lemma pemdas_prefix_chain:
  assumes "list_all (\<lambda>op. op = ''+'' \<or> op = ''-'') ops" and "isVar v"
    and "t \<in> {''+'', ''-'', ''^'', ''''}"
  shows "parseExpr PEMDAS 4 (ops @ v # replicate n [CHR 0x27] @ t # rest)
           = Inr (t # rest, foldr Unary ops ((Unary [CHR 0x27] ^^ n) (Var v)), None)"
  using assms(1)
proof (induction ops)
  case Nil
  have "\<not> isOp v [''-'', ''+'']"
    using isVar_not_glyph [OF assms(2)] by (auto simp: isOp_def)
  with pemdas_suffix_chain [OF assms(2,3), of n rest] show ?case
    by (subst parseExpr.simps) (simp add: pemdas_fields del: One_nat_def)
next
  case (Cons op ops)
  then have op: "isOp op [''-'', ''+'']"
    and ops: "list_all (\<lambda>op. op = ''+'' \<or> op = ''-'') ops" by (auto simp: isOp_def)
  from op Cons.IH [OF ops] show ?case
    by (subst parseExpr.simps) (simp add: pemdas_fields del: One_nat_def)
qed

lemma pemdas_prefix_suffix:
  assumes "list_all (\<lambda>op. op = ''+'' \<or> op = ''-'') ops" and "isVar v"
  shows "parseExpr PEMDAS 0 (ops @ v # replicate n [CHR 0x27] @ [''''])
           = Inr ([''''], foldr Unary ops ((Unary [CHR 0x27] ^^ n) (Var v)), None)"
  using pemdas_prefix_chain [OF assms, of "''''" n "[]"]
  by (intro pemdas_level0_end pemdas_level3_end) simp

text \<open>
  The three ways in which \<^verbatim>\<open>parseSingle\<close> leaves a group, for every grammar.
\<close>

lemma transparent_group:
  assumes "\<not> isVar t" and "find (\<lambda>g. t = Left g) (Parens p) = Some g"
    and "parseExpr p 0 rest = Inr (Right g # lo, e, err)"
  shows "parseSingle p (t # rest) inApp = Inr (lo, e, err)"
  using assms by (simp add: parseSingle.simps)

lemma structural_group_empty:
  assumes "\<not> isVar t" and "find (\<lambda>g. t = Left g) (Parens p) = None"
    and "find (\<lambda>g. t = Left g) (Brackets p) = Some g"
  shows "parseSingle p (t # Right g # rest) inApp = Inr (rest, Var (Left g @ Right g), None)"
  using assms by (simp add: parseSingle.simps)

lemma structural_group_nonempty:
  assumes "\<not> isVar t" and "find (\<lambda>g. t = Left g) (Parens p) = None"
    and "find (\<lambda>g. t = Left g) (Brackets p) = Some g"
    and "rest = [] \<or> hd rest \<noteq> Right g"
    and "parseExpr p 0 rest = Inr (Right g # lo, e, err)"
  shows "parseSingle p (t # rest) inApp = Inr (lo, Unary (Left g @ Right g) e, err)"
  using assms by (cases rest) (simp_all add: parseSingle.simps)

subsection \<open>The parser against the specified language\<close>

lemma in_drop_Suc: "x \<in> set (drop (Suc k) xs) \<Longrightarrow> x \<in> set (drop k xs)"
  using set_drop_subset_set_drop [of k "Suc k" xs] by auto

lemma startsAt_mono: "startsAt p (k + 1) t \<Longrightarrow> startsAt p k t"
  by (auto simp: startsAt_def list_ex_iff dest: in_drop_Suc)

lemma stopAt_mono: "stopAt p k t \<Longrightarrow> stopAt p (k + 1) t"
  by (auto simp: stopAt_def list_ex_iff dest: in_drop_Suc)

lemma drop_level:
  "k < length (Operators p) \<Longrightarrow> drop k (Operators p) = Operators p ! k # drop (k + 1) (Operators p)"
  by (simp add: Cons_nth_drop_Suc)

lemma stopAt_level:
  assumes "k < length (Operators p)" and "stopAt p (k + 1) t"
    and "Type (Operators p ! k) = Prefix \<or> \<not> isOp t (Glyphs (Operators p ! k))"
  shows "stopAt p k t"
  using assms by (auto simp: stopAt_def drop_level)

lemma stopAt_not_op:
  assumes "k < length (Operators p)" and "stopAt p k t" and "Type (Operators p ! k) \<noteq> Prefix"
  shows "\<not> isOp t (Glyphs (Operators p ! k))"
  using assms by (auto simp: stopAt_def drop_level)

lemma spec_heads:
  "specAtom p ts e \<Longrightarrow> ts \<noteq> [] \<and> (isVar (hd ts) \<or> opensGroup p (hd ts))"
  "specApplied p ts e \<Longrightarrow> ts \<noteq> [] \<and> isVar (hd ts)"
  "specPhrase p k ts e \<Longrightarrow> ts \<noteq> [] \<and> startsAt p k (hd ts)"
proof (induction rule: specAtom_specApplied_specPhrase.inducts)
  case (phrase_tighter k p ts e)
  then show ?case using startsAt_mono by blast
next
  case (phrase_prefix k p g ts e)
  then show ?case by (auto simp: startsAt_def drop_level)
qed (auto simp: startsAt_def opensGroup_def list_ex_iff dest: in_drop_Suc)

text \<open>One step of each case of parseExpr, for every grammar.\<close>

lemma parseExpr_atoms:
  "length (Operators p) \<le> k \<Longrightarrow> parseExpr p k toks = parseSingle p toks False"
  by (subst parseExpr.simps) simp

lemma parseExpr_left_first:
  assumes "k < length (Operators p)" and "Type (Operators p ! k) = InfixLeft"
    and "parseExpr p (k + 1) toks = Inr (lo, e, err)"
  shows "parseExpr p k toks = infixLeftLoop p k lo e err"
  using assms by (subst parseExpr.simps) simp

lemma infixLeftLoop_step:
  assumes "isOp g (Glyphs (Operators p ! k))"
    and "parseExpr p (k + 1) rest = Inr (lo', e2, None)"
  shows "infixLeftLoop p k (g # rest) e err = infixLeftLoop p k lo' (Binary g e e2) None"
  using assms by (subst infixLeftLoop.simps) simp

lemma infixLeftLoop_stop:
  assumes "\<not> isOp t (Glyphs (Operators p ! k))"
  shows "infixLeftLoop p k (t # rest) e err = Inr (t # rest, e, err)"
  using assms by (subst infixLeftLoop.simps) simp

lemma parseExpr_right_step:
  assumes "k < length (Operators p)" and "Type (Operators p ! k) = InfixRight"
    and "parseExpr p (k + 1) toks = Inr (g # rest, e1, None)"
    and "isOp g (Glyphs (Operators p ! k))"
    and "parseExpr p k rest = Inr (lo', e2, None)"
  shows "parseExpr p k toks = Inr (lo', Binary g e1 e2, None)"
  using assms by (subst parseExpr.simps) simp

lemma parseExpr_right_stop:
  assumes "k < length (Operators p)" and "Type (Operators p ! k) = InfixRight"
    and "parseExpr p (k + 1) toks = Inr (t # rest, e, None)"
    and "\<not> isOp t (Glyphs (Operators p ! k))"
  shows "parseExpr p k toks = Inr (t # rest, e, None)"
  using assms by (subst parseExpr.simps) simp

lemma parseExpr_prefix_step:
  assumes "k < length (Operators p)" and "Type (Operators p ! k) = Prefix"
    and "isOp g (Glyphs (Operators p ! k))"
    and "parseExpr p k rest = Inr (lo, e, None)"
  shows "parseExpr p k (g # rest) = Inr (lo, Unary g e, None)"
  using assms by (subst parseExpr.simps) simp

lemma parseExpr_prefix_skip:
  assumes "k < length (Operators p)" and "Type (Operators p ! k) = Prefix"
    and "\<not> isOp t (Glyphs (Operators p ! k))"
  shows "parseExpr p k (t # rest) = parseExpr p (k + 1) (t # rest)"
  using assms by (subst parseExpr.simps) simp

lemma parseExpr_suffix:
  assumes "k < length (Operators p)" and "Type (Operators p ! k) = Suffix"
    and "parseExpr p (k + 1) toks = Inr (lo, e, None)"
  shows "parseExpr p k toks = suffixLoop (Glyphs (Operators p ! k)) lo e"
  using assms by (subst parseExpr.simps) simp

text \<open>What the proof uses of the table of PEMDAS.\<close>

lemma isOp_iff: "isOp s ops = (s \<noteq> [] \<and> s \<in> set ops)"
  by (simp add: isOp_def list_ex_iff)

lemma pemdas_levels:
  assumes "k < length (Operators PEMDAS)"
  shows "k = 0 \<or> k = 1 \<or> k = 2 \<or> k = 3 \<or> k = 4 \<or> k = 5"
  using assms by (simp add: PEMDAS_def) arith

lemma isVar_glyphs:
  "\<not> isVar '',''" "\<not> isVar ''+''" "\<not> isVar ''-''" "\<not> isVar ''*''" "\<not> isVar ''/''"
  "\<not> isVar [CHR 0x5C]" "\<not> isVar ''^''" "\<not> isVar [CHR 0x27]"
  "\<not> isVar ''(''" "\<not> isVar ''[''" "\<not> isVar ''{''"
  "\<not> isVar '')''" "\<not> isVar '']''" "\<not> isVar ''}''" "\<not> isVar ''''"
  by (simp_all add: isVar_def IsLetter_def IsDigit_def between_def)

lemma pemdas_glyph_stop:
  assumes "k < length (Operators PEMDAS)" and "Type (Operators PEMDAS ! k) \<noteq> Prefix"
    and "isOp g (Glyphs (Operators PEMDAS ! k))"
  shows "stopAt PEMDAS (k + 1) g"
  using pemdas_levels [OF assms(1)] assms(2,3)
  by (auto simp: PEMDAS_def isOp_iff stopAt_def opensGroup_def isVar_glyphs)

lemma pemdas_prefix_head:
  assumes "k < length (Operators PEMDAS)" and "Type (Operators PEMDAS ! k) = Prefix"
    and "startsAt PEMDAS (k + 1) t"
  shows "\<not> isOp t (Glyphs (Operators PEMDAS ! k))"
  using pemdas_levels [OF assms(1)] assms(2,3)
  by (auto simp: PEMDAS_def isOp_iff startsAt_def opensGroup_def isVar_glyphs)

lemma pemdas_types:
  assumes "k < length (Operators PEMDAS)"
  shows "Type (Operators PEMDAS ! k) \<noteq> OtherOpType"
  using pemdas_levels [OF assms] by (auto simp: PEMDAS_def)

lemma pemdas_parens:
  assumes "g \<in> set (Parens PEMDAS)"
  shows "\<not> isVar (Left g)" "find (\<lambda>g'. Left g = Left g') (Parens PEMDAS) = Some g"
    "stopAt PEMDAS 0 (Right g)"
  using assms
  by (auto simp: PEMDAS_def isOp_iff stopAt_def opensGroup_def isVar_glyphs)

lemma pemdas_brackets:
  assumes "g \<in> set (Brackets PEMDAS)"
  shows "\<not> isVar (Left g)" "find (\<lambda>g'. Left g = Left g') (Parens PEMDAS) = None"
    "find (\<lambda>g'. Left g = Left g') (Brackets PEMDAS) = Some g"
    "stopAt PEMDAS 0 (Right g)" "startsAt PEMDAS 0 t \<Longrightarrow> t \<noteq> Right g"
  using assms
  by (auto simp: PEMDAS_def isOp_iff stopAt_def startsAt_def opensGroup_def isVar_glyphs)

lemma parsesAt_stop:
  "parsesAt k ts e \<Longrightarrow> stopAt PEMDAS k t \<Longrightarrow>
     parseExpr PEMDAS k (ts @ t # rest) = Inr (t # rest, e, None)"
  by (simp add: parsesAt_def)

lemma spec_parse:
  "specAtom p ts e \<Longrightarrow> p = PEMDAS \<longrightarrow>
     (\<forall>X inApp. inApp \<or> \<not> isVar (hd ts) \<longrightarrow>
        parseSingle PEMDAS (ts @ X) inApp = Inr (X, e, None))"
  "specApplied p ts e \<Longrightarrow> p = PEMDAS \<longrightarrow>
     (\<forall>X. parseSingle PEMDAS (ts @ X) False = applyLoop PEMDAS X e)"
  "specPhrase p k ts e \<Longrightarrow> p = PEMDAS \<longrightarrow> parsesAt k ts e"
proof (induction rule: specAtom_specApplied_specPhrase.inducts)
  case (atom_var v p)
  then show ?case by (simp add: parseSingle.simps)
next
  case (atom_parens g p ts e)
  show ?case
  proof (intro impI allI)
    fix X inApp
    assume p: "p = PEMDAS"
    with atom_parens have g: "g \<in> set (Parens PEMDAS)" and ih: "parsesAt 0 ts e" by auto
    have "parseExpr PEMDAS 0 (ts @ Right g # X) = Inr (Right g # X, e, None)"
      by (rule parsesAt_stop [OF ih pemdas_parens(3) [OF g]])
    then have "parseSingle PEMDAS (Left g # ts @ Right g # X) inApp = Inr (X, e, None)"
      by (rule transparent_group [OF pemdas_parens(1,2) [OF g]])
    then show "parseSingle PEMDAS ((Left g # ts @ [Right g]) @ X) inApp = Inr (X, e, None)"
      by simp
  qed
next
  case (atom_empty g p)
  show ?case
  proof (intro impI allI)
    fix X inApp
    assume p: "p = PEMDAS"
    with atom_empty have g: "g \<in> set (Brackets PEMDAS)" by simp
    from structural_group_empty [OF pemdas_brackets(1,2,3) [OF g], of X inApp]
    show "parseSingle PEMDAS ([Left g, Right g] @ X) inApp
            = Inr (X, Var (Left g @ Right g), None)"
      by simp
  qed
next
  case (atom_brackets g p ts e)
  show ?case
  proof (intro impI allI)
    fix X inApp
    assume p: "p = PEMDAS"
    with atom_brackets have g: "g \<in> set (Brackets PEMDAS)" and ih: "parsesAt 0 ts e"
      and ph: "specPhrase PEMDAS 0 ts e" by auto
    from spec_heads(3) [OF ph] have ne: "ts \<noteq> []" and hd: "startsAt PEMDAS 0 (hd ts)" by auto
    have first: "ts @ Right g # X = [] \<or> hd (ts @ Right g # X) \<noteq> Right g"
      using ne pemdas_brackets(5) [OF g hd] by simp
    have "parseExpr PEMDAS 0 (ts @ Right g # X) = Inr (Right g # X, e, None)"
      by (rule parsesAt_stop [OF ih pemdas_brackets(4) [OF g]])
    from structural_group_nonempty [OF pemdas_brackets(1,2,3) [OF g] first this, of inApp]
    show "parseSingle PEMDAS ((Left g # ts @ [Right g]) @ X) inApp
            = Inr (X, Unary (Left g @ Right g) e, None)"
      by simp
  qed
next
  case (applied_var v p)
  then show ?case by (simp add: parseSingle.simps)
next
  case (applied_more p ts f os e)
  show ?case
  proof (intro impI allI)
    fix X
    assume p: "p = PEMDAS"
    with applied_more have ih1: "\<And>Y. parseSingle PEMDAS (ts @ Y) False = applyLoop PEMDAS Y f"
      and ih2: "parseSingle PEMDAS (os @ X) True = Inr (X, e, None)"
      and at: "specAtom PEMDAS os e" by auto
    from spec_heads(1) [OF at] obtain x os' where os: "os = x # os'"
      and x: "isVar x \<or> opensGroup PEMDAS x" by (cases os) auto
    from x have cond: "list_ex (\<lambda>g. x = Left g) (Parens PEMDAS @ Brackets PEMDAS)
                       \<or> (isVar x \<and> AdjacentIsApplication PEMDAS)"
      by (auto simp: opensGroup_def pemdas_fields)
    have "applyLoop PEMDAS (os @ X) f = applyLoop PEMDAS X (Apply f e)"
      using cond ih2 os by (subst applyLoop.simps) simp
    with ih1 [of "os @ X"]
    show "parseSingle PEMDAS ((ts @ os) @ X) False = applyLoop PEMDAS X (Apply f e)"
      by simp
  qed
next
  case (phrase_applied p k ts e)
  show ?case
  proof
    assume p: "p = PEMDAS"
    with phrase_applied have k: "length (Operators PEMDAS) \<le> k"
      and ih: "\<And>Y. parseSingle PEMDAS (ts @ Y) False = applyLoop PEMDAS Y e" by auto
    from k have k6: "\<not> k < 6" by (simp add: pemdas_fields)
    have "parseExpr PEMDAS k (ts @ t # rest) = Inr (t # rest, e, None)"
      if "stopAt PEMDAS k t" for t rest
    proof -
      from that have "applyLoop PEMDAS (t # rest) e = Inr (t # rest, e, None)"
        by (subst applyLoop.simps) (simp add: stopAt_def opensGroup_def)
      with ih [of "t # rest"] parseExpr_atoms [OF k] show ?thesis by simp
    qed
    with k6 show "parsesAt k ts e" by (simp add: parsesAt_def)
  qed
next
  case (phrase_group p k ts e)
  show ?case
  proof
    assume p: "p = PEMDAS"
    with phrase_group have k: "length (Operators PEMDAS) \<le> k"
      and ih: "\<And>Y. parseSingle PEMDAS (ts @ Y) False = Inr (Y, e, None)" by auto
    from k have k6: "\<not> k < 6" by (simp add: pemdas_fields)
    from ih parseExpr_atoms [OF k] k6 show "parsesAt k ts e" by (simp add: parsesAt_def)
  qed
next
  case (phrase_tighter k p ts e)
  show ?case
  proof
    assume p: "p = PEMDAS"
    with phrase_tighter have k: "k < length (Operators PEMDAS)"
      and ih: "parsesAt (k + 1) ts e" and ph: "specPhrase PEMDAS (k + 1) ts e" by auto
    from k have k6: "k < 6" by (simp add: pemdas_fields)
    from spec_heads(3) [OF ph] obtain h ts' where ts: "ts = h # ts'"
      and h: "startsAt PEMDAS (k + 1) h" by (cases ts) auto
    note tight = parsesAt_stop [OF ih]
    show "parsesAt k ts e"
    proof (cases "Type (Operators PEMDAS ! k)")
      case InfixLeft
      have loop: "parseExpr PEMDAS k (ts @ t # rest) = infixLeftLoop PEMDAS k (t # rest) e None"
        if "stopAt PEMDAS (k + 1) t" for t rest
        by (rule parseExpr_left_first [OF k InfixLeft tight [OF that]])
      have "parseExpr PEMDAS k (ts @ t # rest) = Inr (t # rest, e, None)"
        if "stopAt PEMDAS k t" for t rest
        using loop [OF stopAt_mono [OF that]] stopAt_not_op [OF k that] InfixLeft
        by (simp add: infixLeftLoop_stop)
      with loop InfixLeft show ?thesis by (simp add: parsesAt_def)
    next
      case InfixRight
      have "parseExpr PEMDAS k (ts @ t # rest) = Inr (t # rest, e, None)"
        if "stopAt PEMDAS k t" for t rest
        using parseExpr_right_stop [OF k InfixRight tight [OF stopAt_mono [OF that]]]
          stopAt_not_op [OF k that] InfixRight by simp
      with InfixRight show ?thesis by (simp add: parsesAt_def)
    next
      case Prefix
      have "parseExpr PEMDAS k (ts @ t # rest) = Inr (t # rest, e, None)"
        if "stopAt PEMDAS k t" for t rest
        using parseExpr_prefix_skip [OF k Prefix pemdas_prefix_head [OF k Prefix h]]
          tight [OF stopAt_mono [OF that]] ts by simp
      with Prefix show ?thesis by (simp add: parsesAt_def)
    next
      case Suffix
      have loop: "parseExpr PEMDAS k (ts @ t # rest)
                    = suffixLoop (Glyphs (Operators PEMDAS ! k)) (t # rest) e"
        if "stopAt PEMDAS (k + 1) t" for t rest
        by (rule parseExpr_suffix [OF k Suffix tight [OF that]])
      have "parseExpr PEMDAS k (ts @ t # rest) = Inr (t # rest, e, None)"
        if "stopAt PEMDAS k t" for t rest
        using loop [OF stopAt_mono [OF that]] stopAt_not_op [OF k that] Suffix by simp
      with loop Suffix show ?thesis by (simp add: parsesAt_def)
    next
      case OtherOpType
      with pemdas_types [OF k] show ?thesis by simp
    qed
  qed
next
  case (phrase_prefix k p g ts e)
  show ?case
  proof
    assume p: "p = PEMDAS"
    with phrase_prefix have k: "k < length (Operators PEMDAS)"
      and ty: "Type (Operators PEMDAS ! k) = Prefix"
      and g: "isOp g (Glyphs (Operators PEMDAS ! k))"
      and ih: "parsesAt k ts e" by auto
    have "parseExpr PEMDAS k ((g # ts) @ t # rest) = Inr (t # rest, Unary g e, None)"
      if "stopAt PEMDAS k t" for t rest
      using parseExpr_prefix_step [OF k ty g parsesAt_stop [OF ih that]] by simp
    with ty show "parsesAt k (g # ts) (Unary g e)" by (simp add: parsesAt_def)
  qed
next
  case (phrase_left_assoc k p g ts1 e1 ts2 e2)
  show ?case
  proof
    assume p: "p = PEMDAS"
    with phrase_left_assoc have k: "k < length (Operators PEMDAS)"
      and ty: "Type (Operators PEMDAS ! k) = InfixLeft"
      and g: "isOp g (Glyphs (Operators PEMDAS ! k))"
      and ih1: "parsesAt k ts1 e1" and ih2: "parsesAt (k + 1) ts2 e2" by auto
    from k have k6: "k < 6" by (simp add: pemdas_fields)
    from ty have np: "Type (Operators PEMDAS ! k) \<noteq> Prefix" by simp
    from ih1 k6 ty have left: "\<And>t rest. stopAt PEMDAS (k + 1) t \<Longrightarrow>
        parseExpr PEMDAS k (ts1 @ t # rest) = infixLeftLoop PEMDAS k (t # rest) e1 None"
      by (simp add: parsesAt_def)
    have loop: "parseExpr PEMDAS k ((ts1 @ g # ts2) @ t # rest)
                  = infixLeftLoop PEMDAS k (t # rest) (Binary g e1 e2) None"
      if "stopAt PEMDAS (k + 1) t" for t rest
      using left [OF pemdas_glyph_stop [OF k np g], of "ts2 @ t # rest"]
        infixLeftLoop_step [OF g parsesAt_stop [OF ih2 that], of rest e1 None]
      by simp
    have "parseExpr PEMDAS k ((ts1 @ g # ts2) @ t # rest) = Inr (t # rest, Binary g e1 e2, None)"
      if "stopAt PEMDAS k t" for t rest
      using loop [OF stopAt_mono [OF that]] stopAt_not_op [OF k that np]
      by (simp add: infixLeftLoop_stop)
    with loop ty show "parsesAt k (ts1 @ g # ts2) (Binary g e1 e2)"
      by (simp add: parsesAt_def)
  qed
next
  case (phrase_right_assoc k p g ts1 e1 ts2 e2)
  show ?case
  proof
    assume p: "p = PEMDAS"
    with phrase_right_assoc have k: "k < length (Operators PEMDAS)"
      and ty: "Type (Operators PEMDAS ! k) = InfixRight"
      and g: "isOp g (Glyphs (Operators PEMDAS ! k))"
      and ih1: "parsesAt (k + 1) ts1 e1" and ih2: "parsesAt k ts2 e2" by auto
    from ty have np: "Type (Operators PEMDAS ! k) \<noteq> Prefix" by simp
    have "parseExpr PEMDAS k ((ts1 @ g # ts2) @ t # rest) = Inr (t # rest, Binary g e1 e2, None)"
      if "stopAt PEMDAS k t" for t rest
      using parseExpr_right_step [OF k ty
          parsesAt_stop [OF ih1 pemdas_glyph_stop [OF k np g], of "ts2 @ t # rest"] g
          parsesAt_stop [OF ih2 that, of rest]]
      by simp
    with ty show "parsesAt k (ts1 @ g # ts2) (Binary g e1 e2)" by (simp add: parsesAt_def)
  qed
next
  case (phrase_suffix k p g ts e)
  show ?case
  proof
    assume p: "p = PEMDAS"
    with phrase_suffix have k: "k < length (Operators PEMDAS)"
      and ty: "Type (Operators PEMDAS ! k) = Suffix"
      and g: "isOp g (Glyphs (Operators PEMDAS ! k))"
      and ih: "parsesAt k ts e" by auto
    from k have k6: "k < 6" by (simp add: pemdas_fields)
    from ty have np: "Type (Operators PEMDAS ! k) \<noteq> Prefix" by simp
    from ih k6 ty have wrap: "\<And>t rest. stopAt PEMDAS (k + 1) t \<Longrightarrow>
        parseExpr PEMDAS k (ts @ t # rest)
          = suffixLoop (Glyphs (Operators PEMDAS ! k)) (t # rest) e"
      by (simp add: parsesAt_def)
    have loop: "parseExpr PEMDAS k ((ts @ [g]) @ t # rest)
                  = suffixLoop (Glyphs (Operators PEMDAS ! k)) (t # rest) (Unary g e)"
      if "stopAt PEMDAS (k + 1) t" for t rest
      using wrap [OF pemdas_glyph_stop [OF k np g], of "t # rest"] g by simp
    have "parseExpr PEMDAS k ((ts @ [g]) @ t # rest) = Inr (t # rest, Unary g e, None)"
      if "stopAt PEMDAS k t" for t rest
      using loop [OF stopAt_mono [OF that]] stopAt_not_op [OF k that np] by simp
    with loop ty show "parsesAt k (ts @ [g]) (Unary g e)" by (simp add: parsesAt_def)
  qed
qed

lemma spec_phrase_looser:
  assumes "specPhrase PEMDAS k ts e" and "j \<le> k" and "k \<le> 6"
  shows "specPhrase PEMDAS j ts e"
  using assms(2,1)
proof (induction rule: inc_induct)
  case base
  then show ?case .
next
  case (step n)
  from step have "specPhrase PEMDAS (n + 1) ts e" by simp
  moreover from step assms(3) have "n < length (Operators PEMDAS)" by (simp add: pemdas_fields)
  ultimately show ?case by (rule phrase_tighter [rotated])
qed

lemma spec_phrase_var:
  assumes "isVar v" and "k \<le> 6"
  shows "specPhrase PEMDAS k [v] (Var v)"
proof -
  have "specPhrase PEMDAS 6 [v] (Var v)"
    by (rule phrase_applied) (simp_all add: pemdas_fields applied_var assms(1))
  then show ?thesis using assms(2) by (rule spec_phrase_looser) simp
qed

lemma spec_phrase_primes:
  assumes "specPhrase PEMDAS 5 ts e"
  shows "specPhrase PEMDAS 5 (ts @ replicate n [CHR 0x27]) ((Unary [CHR 0x27] ^^ n) e)"
proof (induction n)
  case 0
  from assms show ?case by simp
next
  case (Suc n)
  have "specPhrase PEMDAS 5 ((ts @ replicate n [CHR 0x27]) @ [[CHR 0x27]])
          (Unary [CHR 0x27] ((Unary [CHR 0x27] ^^ n) e))"
    by (rule phrase_suffix [OF _ _ _ Suc]) (simp_all add: pemdas_fields isOp_def)
  then show ?case by (simp add: replicate_append_same)
qed

lemma spec_phrase_signs:
  assumes "specPhrase PEMDAS 4 ts e" and "list_all (\<lambda>op. op = ''+'' \<or> op = ''-'') ops"
  shows "specPhrase PEMDAS 4 (ops @ ts) (foldr Unary ops e)"
  using assms(2)
proof (induction ops)
  case Nil
  from assms(1) show ?case by simp
next
  case (Cons op ops)
  then have ih: "specPhrase PEMDAS 4 (ops @ ts) (foldr Unary ops e)"
    and op: "op = ''+'' \<or> op = ''-''" by auto
  have "specPhrase PEMDAS 4 (op # ops @ ts) (Unary op (foldr Unary ops e))"
    using op by (intro phrase_prefix [OF _ _ _ ih]) (auto simp add: pemdas_fields isOp_def)
  then show ?case by simp
qed

lemma spec_phrase_unit:
  assumes "specPhrase PEMDAS 6 ts e" and "list_all (\<lambda>op. op = ''+'' \<or> op = ''-'') ops"
    and "k \<le> 4"
  shows "specPhrase PEMDAS k (ops @ ts @ replicate n [CHR 0x27])
           (foldr Unary ops ((Unary [CHR 0x27] ^^ n) e))"
proof -
  from assms(1) have "specPhrase PEMDAS 5 ts e" by (rule spec_phrase_looser) simp_all
  then have "specPhrase PEMDAS 5 (ts @ replicate n [CHR 0x27]) ((Unary [CHR 0x27] ^^ n) e)"
    by (rule spec_phrase_primes)
  then have "specPhrase PEMDAS 4 (ts @ replicate n [CHR 0x27]) ((Unary [CHR 0x27] ^^ n) e)"
    by (rule spec_phrase_looser) simp_all
  then have "specPhrase PEMDAS 4 (ops @ ts @ replicate n [CHR 0x27])
               (foldr Unary ops ((Unary [CHR 0x27] ^^ n) e))"
    using assms(2) by (rule spec_phrase_signs)
  then show ?thesis using assms(3) by (rule spec_phrase_looser) simp
qed

lemma spec_phrase_binary:
  assumes k: "k < 4" and g: "isOp g (Glyphs (Operators PEMDAS ! k))"
    and l: "specPhrase PEMDAS (k + 1) ts1 e1" and r: "specPhrase PEMDAS (k + 1) ts2 e2"
  shows "specPhrase PEMDAS k (ts1 @ g # ts2) (Binary g e1 e2)"
proof -
  from k have len: "k < length (Operators PEMDAS)" by (simp add: pemdas_fields)
  from k have "k = 0 \<or> k = 1 \<or> k = 2 \<or> k = 3" by arith
  then have ty: "Type (Operators PEMDAS ! k) = InfixLeft \<or> Type (Operators PEMDAS ! k) = InfixRight"
    by (auto simp: PEMDAS_def)
  from l k have l': "specPhrase PEMDAS k ts1 e1" by (intro spec_phrase_looser [OF l]) simp_all
  from r k have r': "specPhrase PEMDAS k ts2 e2" by (intro spec_phrase_looser [OF r]) simp_all
  from ty show ?thesis
  proof
    assume "Type (Operators PEMDAS ! k) = InfixLeft"
    from phrase_left_assoc [OF len this g l' r] show ?thesis .
  next
    assume "Type (Operators PEMDAS ! k) = InfixRight"
    from phrase_right_assoc [OF len this g l r'] show ?thesis .
  qed
qed

lemma spec_parse_phrase:
  assumes "specPhrase PEMDAS k ts e" and "stopAt PEMDAS k t"
  shows "parseExpr PEMDAS k (ts @ t # rest) = Inr (t # rest, e, None)"
  using spec_parse(3) [OF assms(1)] assms(2) by (simp add: parsesAt_stop)

lemma spec_parse_atom:
  assumes "specAtom PEMDAS os e"
  shows "parseSingle PEMDAS (os @ X) True = Inr (X, e, None)"
  using spec_parse(1) [OF assms] by simp

lemma stopAt_end: "stopAt PEMDAS k ''''"
  by (simp add: stopAt_def opensGroup_def isVar_glyphs isOp_iff list_ex_iff PEMDAS_def)

lemma spec_parse_text:
  assumes "fst (tokenize s) = ts @ ['''']" and "specPhrase PEMDAS 0 ts e"
  shows "ParseExpr PEMDAS s = Inr (e, None)"
proof -
  obtain toks err where tk: "tokenize s = (toks, err)" by (cases "tokenize s") auto
  then have err: "err = None" by (auto simp: tokenize_def split: prod.splits)
  from tk assms(1) have toks: "toks = ts @ ['''']" by simp
  from spec_parse_phrase [OF assms(2) stopAt_end, where rest = "[]"] tk err toks
  show ?thesis by (simp add: ParseExpr_def)
qed

text \<open>Application over any atoms, for every grammar.\<close>

lemma applyLoop_atoms:
  assumes "AdjacentIsApplication (p::Parser)"
    and "list_all2 (\<lambda>os e. os \<noteq> [] \<and> (isVar (hd os) \<or> opensGroup p (hd os))
                        \<and> (\<forall>X. parseSingle p (os @ X) True = Inr (X, e, None))) oss es"
    and "\<not> isVar t" and "\<not> opensGroup p t"
  shows "applyLoop p (concat oss @ t # rest) f = Inr (t # rest, foldl Apply f es, None)"
  using assms(2)
proof (induction oss es arbitrary: f rule: list_all2_induct)
  case Nil
  from assms(3,4) show ?case by (subst applyLoop.simps) (simp add: opensGroup_def)
next
  case (Cons os oss e es)
  from Cons(1) obtain x os' where os: "os = x # os'"
    and x: "isVar x \<or> opensGroup p x"
    and op: "\<And>X. parseSingle p (os @ X) True = Inr (X, e, None)"
    by (cases os) auto
  have "applyLoop p (concat (os # oss) @ t # rest) f
          = applyLoop p (concat oss @ t # rest) (Apply f e)"
    using x assms(1) op [of "concat oss @ t # rest"] os
    by (subst applyLoop.simps) (auto simp: opensGroup_def)
  with Cons.IH [of "Apply f e"] show ?case by simp
qed

lemma spec_atoms_operands:
  assumes "list_all2 (specAtom PEMDAS) oss es"
  shows "list_all2 (\<lambda>os e. os \<noteq> [] \<and> (isVar (hd os) \<or> opensGroup PEMDAS (hd os))
                        \<and> (\<forall>X. parseSingle PEMDAS (os @ X) True = Inr (X, e, None))) oss es"
  using assms
  by (rule list_all2_mono) (use spec_heads(1) spec_parse_atom in blast)

text \<open>
  Claim C1. With the \<^verbatim>\<open>PEMDAS\<close> grammar the order of the table is the precedence:
  \<^verbatim>\<open>a+b*c\<close> is \<^verbatim>\<open>Binary{+, a, Binary{*, b, c}}\<close> and \<^verbatim>\<open>a*b+c\<close> is
  \<^verbatim>\<open>Binary{+, Binary{*, a, b}, c}\<close>; the left-infix \<^verbatim>\<open>+\<close> nests left-deep in
  \<^verbatim>\<open>a+b+c+d\<close> and the right-infix \<^verbatim>\<open>^\<close> nests right-deep in \<^verbatim>\<open>a^b^c^d\<close>.
  The two nestings hold for sequences of any length. For every level and every phrase of
  the specified language, whatever its operands, \<^verbatim>\<open>parseExpr\<close> returns the tree
  of the phrase and stops at the first token that cannot continue it; a text whose tokens
  are a phrase of level 0 parses to its tree. In particular, for any two infix levels of
  the table (comma, sum, product, power) and operands of a tighter level, the operator of
  the tighter level takes its operands first, on whichever side it stands.
\<close>

theorem pemdas_precedence_associativity:
  "ParseExpr PEMDAS ''a+b*c''
     = Inr (Binary ''+'' (Var ''a'') (Binary ''*'' (Var ''b'') (Var ''c'')), None)
   \<and> ParseExpr PEMDAS ''a*b+c''
     = Inr (Binary ''+'' (Binary ''*'' (Var ''a'') (Var ''b'')) (Var ''c''), None)
   \<and> ParseExpr PEMDAS ''a+b+c+d''
     = Inr (Binary ''+'' (Binary ''+'' (Binary ''+'' (Var ''a'') (Var ''b'')) (Var ''c''))
              (Var ''d''), None)
   \<and> ParseExpr PEMDAS ''a^b^c^d''
     = Inr (Binary ''^'' (Var ''a'') (Binary ''^'' (Var ''b'')
              (Binary ''^'' (Var ''c'') (Var ''d''))), None)
   \<and> (\<forall>v vs. isVar v \<and> list_all (\<lambda>(op, w). (op = ''+'' \<or> op = ''-'') \<and> isVar w) vs
         \<longrightarrow> parseExpr PEMDAS 0 (v # concat (map (\<lambda>(op, w). [op, w]) vs) @ [''''])
               = Inr ([''''], foldl (\<lambda>e (op, w). Binary op e (Var w)) (Var v) vs, None))
   \<and> (\<forall>ws v. list_all isVar ws \<and> isVar v
         \<longrightarrow> parseExpr PEMDAS 0 (concat (map (\<lambda>w. [w, ''^'']) ws) @ [v, ''''])
               = Inr ([''''], foldr (\<lambda>w e. Binary ''^'' (Var w) e) ws (Var v), None))
   \<and> (\<forall>k ts e t rest. specPhrase PEMDAS k ts e \<and> stopAt PEMDAS k t
         \<longrightarrow> parseExpr PEMDAS k (ts @ t # rest) = Inr (t # rest, e, None))
   \<and> (\<forall>s ts e. fst (tokenize s) = ts @ [''''] \<and> specPhrase PEMDAS 0 ts e
         \<longrightarrow> ParseExpr PEMDAS s = Inr (e, None))
   \<and> (\<forall>j k h g ta ea tb eb tc ec t rest.
         j < k \<and> k < 4
         \<and> isOp h (Glyphs (Operators PEMDAS ! j)) \<and> isOp g (Glyphs (Operators PEMDAS ! k))
         \<and> specPhrase PEMDAS (k + 1) ta ea \<and> specPhrase PEMDAS (k + 1) tb eb
         \<and> specPhrase PEMDAS (k + 1) tc ec \<and> stopAt PEMDAS j t
         \<longrightarrow> parseExpr PEMDAS j (ta @ h # tb @ g # tc @ t # rest)
               = Inr (t # rest, Binary h ea (Binary g eb ec), None)
           \<and> parseExpr PEMDAS j (ta @ g # tb @ h # tc @ t # rest)
               = Inr (t # rest, Binary h (Binary g ea eb) ec, None))"
proof (intro conjI allI impI)
  show "ParseExpr PEMDAS ''a+b*c''
     = Inr (Binary ''+'' (Var ''a'') (Binary ''*'' (Var ''b'') (Var ''c'')), None)"
    by code_simp
  show "ParseExpr PEMDAS ''a*b+c''
     = Inr (Binary ''+'' (Binary ''*'' (Var ''a'') (Var ''b'')) (Var ''c''), None)"
    by code_simp
  show "ParseExpr PEMDAS ''a+b+c+d''
     = Inr (Binary ''+'' (Binary ''+'' (Binary ''+'' (Var ''a'') (Var ''b'')) (Var ''c''))
              (Var ''d''), None)"
    by code_simp
  show "ParseExpr PEMDAS ''a^b^c^d''
     = Inr (Binary ''^'' (Var ''a'') (Binary ''^'' (Var ''b'')
              (Binary ''^'' (Var ''c'') (Var ''d''))), None)"
    by code_simp
next
  fix v :: string and vs :: "(string \<times> string) list"
  assume "isVar v \<and> list_all (\<lambda>(op, w). (op = ''+'' \<or> op = ''-'') \<and> isVar w) vs"
  then show "parseExpr PEMDAS 0 (v # concat (map (\<lambda>(op, w). [op, w]) vs) @ [''''])
               = Inr ([''''], foldl (\<lambda>e (op, w). Binary op e (Var w)) (Var v) vs, None)"
    by (simp add: pemdas_sum)
next
  fix ws :: "string list" and v :: string
  assume "list_all isVar ws \<and> isVar v"
  then show "parseExpr PEMDAS 0 (concat (map (\<lambda>w. [w, ''^'']) ws) @ [v, ''''])
               = Inr ([''''], foldr (\<lambda>w e. Binary ''^'' (Var w) e) ws (Var v), None)"
    by (simp add: pemdas_power)
next
  fix k ts e t rest
  assume "specPhrase PEMDAS k ts e \<and> stopAt PEMDAS k t"
  then show "parseExpr PEMDAS k (ts @ t # rest) = Inr (t # rest, e, None)"
    by (simp add: spec_parse_phrase)
next
  fix s ts e
  assume "fst (tokenize s) = ts @ [''''] \<and> specPhrase PEMDAS 0 ts e"
  then show "ParseExpr PEMDAS s = Inr (e, None)"
    by (auto intro: spec_parse_text)
next
  fix j k h g ta ea tb eb tc ec t rest
  assume a: "j < k \<and> k < 4
         \<and> isOp h (Glyphs (Operators PEMDAS ! j)) \<and> isOp g (Glyphs (Operators PEMDAS ! k))
         \<and> specPhrase PEMDAS (k + 1) ta ea \<and> specPhrase PEMDAS (k + 1) tb eb
         \<and> specPhrase PEMDAS (k + 1) tc ec \<and> stopAt PEMDAS j t"
  then have j: "j < 4" and k: "k < 4" and jk: "j + 1 \<le> k" by auto
  from a have h: "isOp h (Glyphs (Operators PEMDAS ! j))"
    and g: "isOp g (Glyphs (Operators PEMDAS ! k))"
    and pa: "specPhrase PEMDAS (k + 1) ta ea" and pb: "specPhrase PEMDAS (k + 1) tb eb"
    and pc: "specPhrase PEMDAS (k + 1) tc ec" and t: "stopAt PEMDAS j t" by auto
  have lo: "specPhrase PEMDAS (j + 1) ts e" if "specPhrase PEMDAS (k + 1) ts e" for ts e
    using that jk k by (intro spec_phrase_looser [OF that]) simp_all
  have lo': "specPhrase PEMDAS (j + 1) ts e" if "specPhrase PEMDAS k ts e" for ts e
    using that jk k by (intro spec_phrase_looser [OF that]) simp_all
  have "specPhrase PEMDAS j (ta @ h # tb @ g # tc) (Binary h ea (Binary g eb ec))"
    by (rule spec_phrase_binary [OF j h lo [OF pa] lo' [OF spec_phrase_binary [OF k g pb pc]]])
  from spec_parse_phrase [OF this t, of rest]
  show "parseExpr PEMDAS j (ta @ h # tb @ g # tc @ t # rest)
               = Inr (t # rest, Binary h ea (Binary g eb ec), None)"
    by simp
  have "specPhrase PEMDAS j ((ta @ g # tb) @ h # tc) (Binary h (Binary g ea eb) ec)"
    by (rule spec_phrase_binary [OF j h lo' [OF spec_phrase_binary [OF k g pa pb]] lo [OF pc]])
  from spec_parse_phrase [OF this t, of rest]
  show "parseExpr PEMDAS j (ta @ g # tb @ h # tc @ t # rest)
               = Inr (t # rest, Binary h (Binary g ea eb) ec, None)"
    by simp
qed

theorem pemdas_precedence_associativity_witness:
  "(isVar ''a'' \<and> list_all (\<lambda>(op, w). (op = ''+'' \<or> op = ''-'') \<and> isVar w)
                     [(''+'', ''b''), (''-'', ''c'')])
   \<and> parseExpr PEMDAS 0 [''a'', ''+'', ''b'', ''-'', ''c'', '''']
       = Inr ([''''], Binary ''-'' (Binary ''+'' (Var ''a'') (Var ''b'')) (Var ''c''), None)
   \<and> (list_all isVar [''a'', ''b''] \<and> isVar ''c'')
   \<and> parseExpr PEMDAS 0 [''a'', ''^'', ''b'', ''^'', ''c'', '''']
       = Inr ([''''], Binary ''^'' (Var ''a'') (Binary ''^'' (Var ''b'') (Var ''c'')), None)
   \<and> (specPhrase PEMDAS 0 [''a'', ''^'', ''b'', ''+'', ''c'']
          (Binary ''+'' (Binary ''^'' (Var ''a'') (Var ''b'')) (Var ''c''))
        \<and> stopAt PEMDAS 0 '')'')
   \<and> parseExpr PEMDAS 0 [''a'', ''^'', ''b'', ''+'', ''c'', '')'', '''']
       = Inr (['')'', ''''], Binary ''+'' (Binary ''^'' (Var ''a'') (Var ''b'')) (Var ''c''), None)
   \<and> fst (tokenize ''a^b+c'') = [''a'', ''^'', ''b'', ''+'', ''c''] @ ['''']
   \<and> ParseExpr PEMDAS ''a^b+c''
       = Inr (Binary ''+'' (Binary ''^'' (Var ''a'') (Var ''b'')) (Var ''c''), None)
   \<and> ((0::nat) < 2 \<and> (2::nat) < 4
        \<and> isOp '','' (Glyphs (Operators PEMDAS ! 0)) \<and> isOp ''*'' (Glyphs (Operators PEMDAS ! 2))
        \<and> specPhrase PEMDAS (2 + 1) [''a''] (Var ''a'')
        \<and> specPhrase PEMDAS (2 + 1) [''b''] (Var ''b'')
        \<and> specPhrase PEMDAS (2 + 1) [''c''] (Var ''c'') \<and> stopAt PEMDAS 0 '''')
   \<and> parseExpr PEMDAS 0 [''a'', '','', ''b'', ''*'', ''c'', '''']
       = Inr ([''''], Binary '','' (Var ''a'') (Binary ''*'' (Var ''b'') (Var ''c'')), None)
   \<and> parseExpr PEMDAS 0 [''a'', ''*'', ''b'', '','', ''c'', '''']
       = Inr ([''''], Binary '','' (Binary ''*'' (Var ''a'') (Var ''b'')) (Var ''c''), None)"
proof -
  have va: "isVar ''a''" and vb: "isVar ''b''" and vc: "isVar ''c''" by code_simp+
  have h1: "isVar ''a'' \<and> list_all (\<lambda>(op, w). (op = ''+'' \<or> op = ''-'') \<and> isVar w)
                     [(''+'', ''b''), (''-'', ''c'')]"
    by code_simp
  have h2: "list_all isVar [''a'', ''b''] \<and> isVar ''c''"
    by code_simp
  have pow: "specPhrase PEMDAS 3 ([''a''] @ ''^'' # [''b'']) (Binary ''^'' (Var ''a'') (Var ''b''))"
    by (rule spec_phrase_binary [OF _ _ spec_phrase_var [OF va] spec_phrase_var [OF vb]])
      (simp_all add: PEMDAS_def isOp_iff)
  have "specPhrase PEMDAS 1 (([''a''] @ ''^'' # [''b'']) @ ''+'' # [''c''])
          (Binary ''+'' (Binary ''^'' (Var ''a'') (Var ''b'')) (Var ''c''))"
    by (rule spec_phrase_binary [OF _ _ spec_phrase_looser [OF pow] spec_phrase_var [OF vc]])
      (simp_all add: PEMDAS_def isOp_iff)
  then have "specPhrase PEMDAS 0 (([''a''] @ ''^'' # [''b'']) @ ''+'' # [''c''])
          (Binary ''+'' (Binary ''^'' (Var ''a'') (Var ''b'')) (Var ''c''))"
    by (rule spec_phrase_looser) simp_all
  then have ph: "specPhrase PEMDAS 0 [''a'', ''^'', ''b'', ''+'', ''c'']
          (Binary ''+'' (Binary ''^'' (Var ''a'') (Var ''b'')) (Var ''c''))"
    by simp
  have st: "stopAt PEMDAS 0 '')''"
    by (simp add: stopAt_def opensGroup_def isVar_glyphs isOp_iff list_ex_iff PEMDAS_def)
  have h3: "specPhrase PEMDAS 0 [''a'', ''^'', ''b'', ''+'', ''c'']
          (Binary ''+'' (Binary ''^'' (Var ''a'') (Var ''b'')) (Var ''c''))
        \<and> stopAt PEMDAS 0 '')''"
    using ph st by simp
  have tk: "fst (tokenize ''a^b+c'') = [''a'', ''^'', ''b'', ''+'', ''c''] @ ['''']"
    by code_simp
  have h4: "fst (tokenize ''a^b+c'') = [''a'', ''^'', ''b'', ''+'', ''c''] @ ['''']
        \<and> specPhrase PEMDAS 0 [''a'', ''^'', ''b'', ''+'', ''c'']
          (Binary ''+'' (Binary ''^'' (Var ''a'') (Var ''b'')) (Var ''c''))"
    using tk ph by simp
  have h5: "(0::nat) < 2 \<and> (2::nat) < 4
        \<and> isOp '','' (Glyphs (Operators PEMDAS ! 0)) \<and> isOp ''*'' (Glyphs (Operators PEMDAS ! 2))
        \<and> specPhrase PEMDAS (2 + 1) [''a''] (Var ''a'')
        \<and> specPhrase PEMDAS (2 + 1) [''b''] (Var ''b'')
        \<and> specPhrase PEMDAS (2 + 1) [''c''] (Var ''c'') \<and> stopAt PEMDAS 0 ''''"
    using spec_phrase_var [OF va, of "2 + 1"] spec_phrase_var [OF vb, of "2 + 1"]
      spec_phrase_var [OF vc, of "2 + 1"] stopAt_end [of 0]
    by (simp add: PEMDAS_def isOp_iff)
  note sums = pemdas_precedence_associativity [THEN conjunct2, THEN conjunct2, THEN conjunct2, THEN conjunct2, THEN conjunct1, rule_format, OF h1]
  note powers = pemdas_precedence_associativity [THEN conjunct2, THEN conjunct2, THEN conjunct2, THEN conjunct2, THEN conjunct2, THEN conjunct1, rule_format, OF h2]
  note phrase = pemdas_precedence_associativity [THEN conjunct2, THEN conjunct2, THEN conjunct2, THEN conjunct2, THEN conjunct2, THEN conjunct2, THEN conjunct1, rule_format, OF h3, of "['''']"]
  note whole = pemdas_precedence_associativity [THEN conjunct2, THEN conjunct2, THEN conjunct2, THEN conjunct2, THEN conjunct2, THEN conjunct2, THEN conjunct2, THEN conjunct1, rule_format, OF h4]
  note levels = pemdas_precedence_associativity [THEN conjunct2, THEN conjunct2, THEN conjunct2, THEN conjunct2, THEN conjunct2, THEN conjunct2, THEN conjunct2, THEN conjunct2, rule_format, OF h5, of "[]"]
  from sums powers phrase whole levels h1 h2 h3 h4 h5 show ?thesis by simp
qed

text \<open>
  Claim C2 says that no source text makes the entry points panic. The text \<^verbatim>\<open>a^\<close> does:
  the \<^verbatim>\<open>InfixRight\<close> case finds no right operand and returns \<^verbatim>\<open>lo[1:]\<close> of the
  one-element slice that holds the end-of-input marker, so the enclosing \<^verbatim>\<open>InfixLeft\<close>
  level reads \<^verbatim>\<open>lo[0]\<close> of an empty slice. \<^verbatim>\<open>Parse\<close> panics in the same way on
  \<^verbatim>\<open>x=a^\<close>, and on \<^verbatim>\<open>a^b^\<close> the outer \<^verbatim>\<open>InfixRight\<close> level slices the empty slice.
\<close>

theorem parse_panics_on_dangling_power:
  "ParseExpr PEMDAS ''a^'' = Inl IndexOutOfRange
   \<and> Parse PEMDAS ''x=a^'' = Inl IndexOutOfRange
   \<and> ParseExpr PEMDAS ''a^b^'' = Inl SliceBoundsOutOfRange"
  by code_simp

lemma parseSingle_operand_var:
  "isVar t \<Longrightarrow> parseSingle p (t # rest) True = Inr (rest, Var t, None)"
  by (simp add: parseSingle.simps)

lemma applyLoop_vars:
  assumes "AdjacentIsApplication (p::Parser)" and "list_all isVar vs" and "\<not> isVar t"
    and "\<not> list_ex (\<lambda>g. t = Left g) (Parens p @ Brackets p)"
  shows "applyLoop p (vs @ t # rest) e = Inr (t # rest, foldl Apply e (map Var vs), None)"
  using assms
proof (induction vs arbitrary: e)
  case Nil
  then show ?case by (simp add: applyLoop.simps)
next
  case (Cons v vs)
  from Cons.prems have v: "isVar v" and vs: "list_all isVar vs" by auto
  have "applyLoop p ((v # vs) @ t # rest) e = applyLoop p (vs @ t # rest) (Apply e (Var v))"
    using v Cons.prems(1) by (subst applyLoop.simps) (simp add: parseSingle_operand_var)
  with Cons.IH [OF Cons.prems(1) vs Cons.prems(3,4)] show ?case by simp
qed

text \<open>
  Claim C3. With the juxtaposition flag set, a variable followed by further atoms folds to
  the left into \<^verbatim>\<open>Apply\<close> nodes: with \<^verbatim>\<open>PEMDAS\<close>, \<^verbatim>\<open>log a b c\<close> is
  \<^verbatim>\<open>Apply{Apply{Apply{log, a}, b}, c}\<close> and \<^verbatim>\<open>ABC\<close>, which the tokenizer splits at every
  upper-case letter, is \<^verbatim>\<open>Apply{Apply{A, B}, C}\<close>. The operand of an application is a
  single atom: parsed as an operand, a variable is returned alone whatever follows it, and
  so is every atom of \<^verbatim>\<open>PEMDAS\<close> (a variable, a transparent group, a structural group,
  empty or not), with all the tokens after it left over. A variable followed by any
  number of such atoms and then by a token that starts no atom is the left fold of
  \<^verbatim>\<open>Apply\<close> over their trees; the same holds for every grammar with the flag set and
  every sequence of tokens that \<^verbatim>\<open>parseSingle\<close> reads as single operands.
\<close>

theorem application_folds_left:
  "ParseExpr PEMDAS ''log a b c''
     = Inr (Apply (Apply (Apply (Var ''log'') (Var ''a'')) (Var ''b'')) (Var ''c''), None)
   \<and> ParseExpr PEMDAS ''ABC'' = Inr (Apply (Apply (Var ''A'') (Var ''B'')) (Var ''C''), None)
   \<and> (\<forall>p t rest. isVar t \<longrightarrow> parseSingle p (t # rest) True = Inr (rest, Var t, None))
   \<and> (\<forall>p v vs t rest.
         AdjacentIsApplication p \<and> isVar v \<and> list_all isVar vs \<and> \<not> isVar t
         \<and> \<not> list_ex (\<lambda>g. t = Left g) (Parens p @ Brackets p)
         \<longrightarrow> parseSingle p (v # vs @ t # rest) False
               = Inr (t # rest, foldl Apply (Var v) (map Var vs), None))
   \<and> (\<forall>v oss es t rest.
         isVar v \<and> list_all2 (specAtom PEMDAS) oss es \<and> \<not> isVar t \<and> \<not> opensGroup PEMDAS t
         \<longrightarrow> parseSingle PEMDAS (v # concat oss @ t # rest) False
               = Inr (t # rest, foldl Apply (Var v) es, None))
   \<and> (\<forall>os e X. specAtom PEMDAS os e
         \<longrightarrow> parseSingle PEMDAS (os @ X) True = Inr (X, e, None))
   \<and> (\<forall>p v oss es t rest.
         AdjacentIsApplication p \<and> isVar v
         \<and> list_all2 (\<lambda>os e. os \<noteq> [] \<and> (isVar (hd os) \<or> opensGroup p (hd os))
                        \<and> (\<forall>X. parseSingle p (os @ X) True = Inr (X, e, None))) oss es
         \<and> \<not> isVar t \<and> \<not> opensGroup p t
         \<longrightarrow> parseSingle p (v # concat oss @ t # rest) False
               = Inr (t # rest, foldl Apply (Var v) es, None))"
proof (intro conjI allI impI)
  show "ParseExpr PEMDAS ''log a b c''
     = Inr (Apply (Apply (Apply (Var ''log'') (Var ''a'')) (Var ''b'')) (Var ''c''), None)"
    by code_simp
  show "ParseExpr PEMDAS ''ABC'' = Inr (Apply (Apply (Var ''A'') (Var ''B'')) (Var ''C''), None)"
    by code_simp
next
  fix p :: Parser and t rest
  assume "isVar t"
  then show "parseSingle p (t # rest) True = Inr (rest, Var t, None)"
    by (rule parseSingle_operand_var)
next
  fix p :: Parser and v :: string and vs t rest
  assume a: "AdjacentIsApplication p \<and> isVar v \<and> list_all isVar vs \<and> \<not> isVar t
         \<and> \<not> list_ex (\<lambda>g. t = Left g) (Parens p @ Brackets p)"
  then have "parseSingle p (v # vs @ t # rest) False = applyLoop p (vs @ t # rest) (Var v)"
    by (simp add: parseSingle.simps)
  with a show "parseSingle p (v # vs @ t # rest) False
               = Inr (t # rest, foldl Apply (Var v) (map Var vs), None)"
    by (simp add: applyLoop_vars)
next
  fix v :: string and oss es t rest
  assume a: "isVar v \<and> list_all2 (specAtom PEMDAS) oss es \<and> \<not> isVar t
               \<and> \<not> opensGroup PEMDAS t"
  then have "parseSingle PEMDAS (v # concat oss @ t # rest) False
               = applyLoop PEMDAS (concat oss @ t # rest) (Var v)"
    by (simp add: parseSingle.simps)
  also have "\<dots> = Inr (t # rest, foldl Apply (Var v) es, None)"
    using a by (intro applyLoop_atoms spec_atoms_operands) (simp_all add: pemdas_fields)
  finally show "parseSingle PEMDAS (v # concat oss @ t # rest) False
               = Inr (t # rest, foldl Apply (Var v) es, None)" .
next
  fix os e X
  assume "specAtom PEMDAS os e"
  then show "parseSingle PEMDAS (os @ X) True = Inr (X, e, None)"
    by (rule spec_parse_atom)
next
  fix p :: Parser and v :: string and oss es t rest
  assume a: "AdjacentIsApplication p \<and> isVar v
         \<and> list_all2 (\<lambda>os e. os \<noteq> [] \<and> (isVar (hd os) \<or> opensGroup p (hd os))
                        \<and> (\<forall>X. parseSingle p (os @ X) True = Inr (X, e, None))) oss es
         \<and> \<not> isVar t \<and> \<not> opensGroup p t"
  then have "parseSingle p (v # concat oss @ t # rest) False
               = applyLoop p (concat oss @ t # rest) (Var v)"
    by (simp add: parseSingle.simps)
  also have "\<dots> = Inr (t # rest, foldl Apply (Var v) es, None)"
    using a by (intro applyLoop_atoms) simp_all
  finally show "parseSingle p (v # concat oss @ t # rest) False
               = Inr (t # rest, foldl Apply (Var v) es, None)" .
qed

theorem application_folds_left_witness:
  "isVar ''b'' \<and> parseSingle PEMDAS [''b'', ''c'', ''''] True = Inr ([''c'', ''''], Var ''b'', None)
   \<and> AdjacentIsApplication PEMDAS \<and> isVar ''f'' \<and> list_all isVar [''x'', ''y'']
   \<and> \<not> isVar ''+'' \<and> \<not> list_ex (\<lambda>g. ''+'' = Left g) (Parens PEMDAS @ Brackets PEMDAS)
   \<and> parseSingle PEMDAS [''f'', ''x'', ''y'', ''+'', ''z'', ''''] False
       = Inr ([''+'', ''z'', ''''], Apply (Apply (Var ''f'') (Var ''x'')) (Var ''y''), None)
   \<and> (isVar ''inv''
        \<and> list_all2 (specAtom PEMDAS) [[''('', ''A'', '')''], [''x''], [''{'', ''}'']]
             [Var ''A'', Var ''x'', Var ''{}'']
        \<and> \<not> opensGroup PEMDAS ''+'')
   \<and> parseSingle PEMDAS [''inv'', ''('', ''A'', '')'', ''x'', ''{'', ''}'', ''+'', ''z'', ''''] False
       = Inr ([''+'', ''z'', ''''],
              Apply (Apply (Apply (Var ''inv'') (Var ''A'')) (Var ''x'')) (Var ''{}''), None)
   \<and> specAtom PEMDAS [''('', ''a'', ''b'', '')''] (Apply (Var ''a'') (Var ''b''))
   \<and> parseSingle PEMDAS [''('', ''a'', ''b'', '')'', ''c'', ''''] True
       = Inr ([''c'', ''''], Apply (Var ''a'') (Var ''b''), None)
   \<and> list_all2 (\<lambda>os e. os \<noteq> [] \<and> (isVar (hd os) \<or> opensGroup PEMDAS (hd os))
                   \<and> (\<forall>X. parseSingle PEMDAS (os @ X) True = Inr (X, e, None)))
        [[''x''], [''{'', ''}'']] [Var ''x'', Var ''{}'']
   \<and> parseSingle PEMDAS [''f'', ''x'', ''{'', ''}'', ''''] False
       = Inr ([''''], Apply (Apply (Var ''f'') (Var ''x'')) (Var ''{}''), None)"
proof -
  have h1: "isVar ''b''" by code_simp
  have h2: "AdjacentIsApplication PEMDAS \<and> isVar ''f'' \<and> list_all isVar [''x'', ''y'']
   \<and> \<not> isVar ''+'' \<and> \<not> list_ex (\<lambda>g. ''+'' = Left g) (Parens PEMDAS @ Brackets PEMDAS)"
    by code_simp
  have vs: "isVar ''A''" "isVar ''x''" "isVar ''a''" "isVar ''inv''" "isVar ''f''"
    by code_simp+
  have paren: "\<lparr>Left = ''('', Right = '')''\<rparr> \<in> set (Parens PEMDAS)"
    and brace: "\<lparr>Left = ''{'', Right = ''}''\<rparr> \<in> set (Brackets PEMDAS)"
    by (simp_all add: pemdas_fields)
  have a1: "specAtom PEMDAS [''('', ''A'', '')''] (Var ''A'')"
    using atom_parens [OF paren spec_phrase_var [OF vs(1), of 0]] by simp
  have a2: "specAtom PEMDAS [''x''] (Var ''x'')" by (rule atom_var [OF vs(2)])
  have a3: "specAtom PEMDAS [''{'', ''}''] (Var ''{}'')"
    using atom_empty [OF brace] by simp
  have ns: "\<not> opensGroup PEMDAS ''+''" "\<not> isVar ''+''" "\<not> opensGroup PEMDAS ''''" "\<not> isVar ''''"
    by (simp_all add: opensGroup_def pemdas_fields isVar_glyphs)
  have h3: "isVar ''inv''
        \<and> list_all2 (specAtom PEMDAS) [[''('', ''A'', '')''], [''x''], [''{'', ''}'']]
             [Var ''A'', Var ''x'', Var ''{}'']
        \<and> \<not> isVar ''+'' \<and> \<not> opensGroup PEMDAS ''+''"
    using vs a1 a2 a3 ns by simp
  have "specApplied PEMDAS ([''a''] @ [''b'']) (Apply (Var ''a'') (Var ''b''))"
    by (rule applied_more [OF applied_var [OF vs(3)] atom_var [OF h1]]) (simp add: pemdas_fields)
  then have "specPhrase PEMDAS 6 [''a'', ''b''] (Apply (Var ''a'') (Var ''b''))"
    by (intro phrase_applied) (simp_all add: pemdas_fields)
  then have "specPhrase PEMDAS 0 [''a'', ''b''] (Apply (Var ''a'') (Var ''b''))"
    by (rule spec_phrase_looser) simp_all
  from atom_parens [OF paren this]
  have h4: "specAtom PEMDAS [''('', ''a'', ''b'', '')''] (Apply (Var ''a'') (Var ''b''))"
    by simp
  have ops: "list_all2 (\<lambda>os e. os \<noteq> [] \<and> (isVar (hd os) \<or> opensGroup PEMDAS (hd os))
                   \<and> (\<forall>X. parseSingle PEMDAS (os @ X) True = Inr (X, e, None)))
        [[''x''], [''{'', ''}'']] [Var ''x'', Var ''{}'']"
    using spec_atoms_operands [of "[[''x''], [''{'', ''}'']]" "[Var ''x'', Var ''{}'']"] a2 a3
    by simp
  have h5: "AdjacentIsApplication PEMDAS \<and> isVar ''f''
         \<and> list_all2 (\<lambda>os e. os \<noteq> [] \<and> (isVar (hd os) \<or> opensGroup PEMDAS (hd os))
                        \<and> (\<forall>X. parseSingle PEMDAS (os @ X) True = Inr (X, e, None)))
              [[''x''], [''{'', ''}'']] [Var ''x'', Var ''{}'']
         \<and> \<not> isVar '''' \<and> \<not> opensGroup PEMDAS ''''"
    using ops vs ns by (simp add: pemdas_fields)
  note operand = application_folds_left [THEN conjunct2, THEN conjunct2, THEN conjunct1, rule_format, OF h1, of PEMDAS "[''c'', '''']"]
  note vars = application_folds_left [THEN conjunct2, THEN conjunct2, THEN conjunct2, THEN conjunct1, rule_format, OF h2, of "[''z'', '''']"]
  note atoms = application_folds_left [THEN conjunct2, THEN conjunct2, THEN conjunct2, THEN conjunct2, THEN conjunct1, rule_format, OF h3, of "[''z'', '''']"]
  note single = application_folds_left [THEN conjunct2, THEN conjunct2, THEN conjunct2, THEN conjunct2, THEN conjunct2, THEN conjunct1, rule_format, OF h4, of "[''c'', '''']"]
  note generic = application_folds_left [THEN conjunct2, THEN conjunct2, THEN conjunct2, THEN conjunct2, THEN conjunct2, THEN conjunct2, rule_format, OF h5, of "[]"]
  from operand vars atoms single generic h1 h2 h3 h4 ops show ?thesis by simp
qed

text \<open>
  Claim C4. With the \<^verbatim>\<open>PEMDAS\<close> grammar prefix operators nest to the right,
  \<^verbatim>\<open>a++++b\<close> being \<^verbatim>\<open>Binary{+, a, Unary{+, Unary{+, Unary{+, b}}}}\<close>; the suffix operator
  binds tighter than prefix negation and chains from left to right: \<^verbatim>\<open>a''\<close> is
  \<^verbatim>\<open>Unary{', Unary{', a}}\<close> and \<^verbatim>\<open>-b'\<close> is \<^verbatim>\<open>Unary{-, Unary{', b}}\<close>. For any
  number of prefix signs before an atom and of primes after it, the primes wrap the atom
  first, from left to right, and the signs wrap the result, the first sign outermost; the
  prefix level stops there, before any infix operator or closer that follows. Such a
  signed and primed atom is one operand of every infix operator of the table, as its
  right operand and as its left operand.
\<close>

theorem prefix_suffix_nesting:
  "ParseExpr PEMDAS ''a++++b''
     = Inr (Binary ''+'' (Var ''a'') (Unary ''+'' (Unary ''+'' (Unary ''+'' (Var ''b'')))), None)
   \<and> ParseExpr PEMDAS [CHR ''a'', CHR 0x27, CHR 0x27]
     = Inr (Unary [CHR 0x27] (Unary [CHR 0x27] (Var ''a'')), None)
   \<and> ParseExpr PEMDAS [CHR ''-'', CHR ''b'', CHR 0x27]
     = Inr (Unary ''-'' (Unary [CHR 0x27] (Var ''b'')), None)
   \<and> (\<forall>ops v n. list_all (\<lambda>op. op = ''+'' \<or> op = ''-'') ops \<and> isVar v
         \<longrightarrow> parseExpr PEMDAS 0 (ops @ v # replicate n [CHR 0x27] @ [''''])
               = Inr ([''''], foldr Unary ops ((Unary [CHR 0x27] ^^ n) (Var v)), None))
   \<and> (\<forall>ops ts e n t rest.
         list_all (\<lambda>op. op = ''+'' \<or> op = ''-'') ops \<and> specPhrase PEMDAS 6 ts e
         \<and> stopAt PEMDAS 4 t
         \<longrightarrow> parseExpr PEMDAS 4 (ops @ ts @ replicate n [CHR 0x27] @ t # rest)
               = Inr (t # rest, foldr Unary ops ((Unary [CHR 0x27] ^^ n) e), None))
   \<and> (\<forall>k g ts1 e1 ops ts e n t rest.
         k < 4 \<and> isOp g (Glyphs (Operators PEMDAS ! k)) \<and> specPhrase PEMDAS (k + 1) ts1 e1
         \<and> list_all (\<lambda>op. op = ''+'' \<or> op = ''-'') ops \<and> specPhrase PEMDAS 6 ts e
         \<and> stopAt PEMDAS k t
         \<longrightarrow> parseExpr PEMDAS k (ts1 @ g # ops @ ts @ replicate n [CHR 0x27] @ t # rest)
               = Inr (t # rest,
                      Binary g e1 (foldr Unary ops ((Unary [CHR 0x27] ^^ n) e)), None))
   \<and> (\<forall>k g ops ts e n ts2 e2 t rest.
         k < 4 \<and> isOp g (Glyphs (Operators PEMDAS ! k))
         \<and> list_all (\<lambda>op. op = ''+'' \<or> op = ''-'') ops \<and> specPhrase PEMDAS 6 ts e
         \<and> specPhrase PEMDAS (k + 1) ts2 e2 \<and> stopAt PEMDAS k t
         \<longrightarrow> parseExpr PEMDAS k (ops @ ts @ replicate n [CHR 0x27] @ g # ts2 @ t # rest)
               = Inr (t # rest,
                      Binary g (foldr Unary ops ((Unary [CHR 0x27] ^^ n) e)) e2, None))"
proof (intro conjI allI impI)
  show "ParseExpr PEMDAS ''a++++b''
     = Inr (Binary ''+'' (Var ''a'') (Unary ''+'' (Unary ''+'' (Unary ''+'' (Var ''b'')))), None)"
    by code_simp
  show "ParseExpr PEMDAS [CHR ''a'', CHR 0x27, CHR 0x27]
     = Inr (Unary [CHR 0x27] (Unary [CHR 0x27] (Var ''a'')), None)"
    by code_simp
  show "ParseExpr PEMDAS [CHR ''-'', CHR ''b'', CHR 0x27]
     = Inr (Unary ''-'' (Unary [CHR 0x27] (Var ''b'')), None)"
    by code_simp
next
  fix ops :: "string list" and v :: string and n :: nat
  assume "list_all (\<lambda>op. op = ''+'' \<or> op = ''-'') ops \<and> isVar v"
  then show "parseExpr PEMDAS 0 (ops @ v # replicate n [CHR 0x27] @ [''''])
               = Inr ([''''], foldr Unary ops ((Unary [CHR 0x27] ^^ n) (Var v)), None)"
    by (simp add: pemdas_prefix_suffix)
next
  fix ops ts e n t rest
  assume a: "list_all (\<lambda>op. op = ''+'' \<or> op = ''-'') ops \<and> specPhrase PEMDAS 6 ts e
         \<and> stopAt PEMDAS 4 t"
  then have "specPhrase PEMDAS 4 (ops @ ts @ replicate n [CHR 0x27])
               (foldr Unary ops ((Unary [CHR 0x27] ^^ n) e))"
    by (intro spec_phrase_unit) simp_all
  from spec_parse_phrase [OF this, of t rest] a
  show "parseExpr PEMDAS 4 (ops @ ts @ replicate n [CHR 0x27] @ t # rest)
               = Inr (t # rest, foldr Unary ops ((Unary [CHR 0x27] ^^ n) e), None)"
    by simp
next
  fix k g ts1 e1 ops ts e n t rest
  assume a: "k < 4 \<and> isOp g (Glyphs (Operators PEMDAS ! k)) \<and> specPhrase PEMDAS (k + 1) ts1 e1
         \<and> list_all (\<lambda>op. op = ''+'' \<or> op = ''-'') ops \<and> specPhrase PEMDAS 6 ts e
         \<and> stopAt PEMDAS k t"
  then have "specPhrase PEMDAS (k + 1) (ops @ ts @ replicate n [CHR 0x27])
               (foldr Unary ops ((Unary [CHR 0x27] ^^ n) e))"
    by (intro spec_phrase_unit) simp_all
  with a have "specPhrase PEMDAS k (ts1 @ g # ops @ ts @ replicate n [CHR 0x27])
                 (Binary g e1 (foldr Unary ops ((Unary [CHR 0x27] ^^ n) e)))"
    by (intro spec_phrase_binary) simp_all
  from spec_parse_phrase [OF this, of t rest] a
  show "parseExpr PEMDAS k (ts1 @ g # ops @ ts @ replicate n [CHR 0x27] @ t # rest)
               = Inr (t # rest,
                      Binary g e1 (foldr Unary ops ((Unary [CHR 0x27] ^^ n) e)), None)"
    by simp
next
  fix k g ops ts e n ts2 e2 t rest
  assume a: "k < 4 \<and> isOp g (Glyphs (Operators PEMDAS ! k))
         \<and> list_all (\<lambda>op. op = ''+'' \<or> op = ''-'') ops \<and> specPhrase PEMDAS 6 ts e
         \<and> specPhrase PEMDAS (k + 1) ts2 e2 \<and> stopAt PEMDAS k t"
  then have "specPhrase PEMDAS (k + 1) (ops @ ts @ replicate n [CHR 0x27])
               (foldr Unary ops ((Unary [CHR 0x27] ^^ n) e))"
    by (intro spec_phrase_unit) simp_all
  with a have "specPhrase PEMDAS k ((ops @ ts @ replicate n [CHR 0x27]) @ g # ts2)
                 (Binary g (foldr Unary ops ((Unary [CHR 0x27] ^^ n) e)) e2)"
    by (intro spec_phrase_binary) simp_all
  from spec_parse_phrase [OF this, of t rest] a
  show "parseExpr PEMDAS k (ops @ ts @ replicate n [CHR 0x27] @ g # ts2 @ t # rest)
               = Inr (t # rest,
                      Binary g (foldr Unary ops ((Unary [CHR 0x27] ^^ n) e)) e2, None)"
    by simp
qed

theorem prefix_suffix_nesting_witness:
  "(list_all (\<lambda>op. op = ''+'' \<or> op = ''-'') [''-'', ''+''] \<and> isVar ''b'')
   \<and> parseExpr PEMDAS 0 [''-'', ''+'', ''b'', [CHR 0x27], [CHR 0x27], '''']
       = Inr ([''''], Unary ''-'' (Unary ''+'' (Unary [CHR 0x27] (Unary [CHR 0x27] (Var ''b'')))),
              None)
   \<and> (specPhrase PEMDAS 6 [''a''] (Var ''a'') \<and> stopAt PEMDAS 4 ''+'')
   \<and> parseExpr PEMDAS 4 [''-'', ''a'', ''+'', ''b'', '''']
       = Inr ([''+'', ''b'', ''''], Unary ''-'' (Var ''a''), None)
   \<and> ((3::nat) < 4 \<and> isOp ''^'' (Glyphs (Operators PEMDAS ! 3))
        \<and> specPhrase PEMDAS (3 + 1) [''a''] (Var ''a'') \<and> specPhrase PEMDAS 6 [''b''] (Var ''b'')
        \<and> stopAt PEMDAS 3 ''+'')
   \<and> parseExpr PEMDAS 3 [''a'', ''^'', ''-'', ''b'', [CHR 0x27], ''+'', ''c'', '''']
       = Inr ([''+'', ''c'', ''''],
              Binary ''^'' (Var ''a'') (Unary ''-'' (Unary [CHR 0x27] (Var ''b''))), None)
   \<and> ((1::nat) < 4 \<and> isOp ''+'' (Glyphs (Operators PEMDAS ! 1))
        \<and> specPhrase PEMDAS (1 + 1) [''b''] (Var ''b'') \<and> stopAt PEMDAS 1 '''')
   \<and> parseExpr PEMDAS 1 [''-'', ''a'', ''+'', ''b'', '''']
       = Inr ([''''], Binary ''+'' (Unary ''-'' (Var ''a'')) (Var ''b''), None)"
proof -
  have va: "isVar ''a''" and vb: "isVar ''b''" by code_simp+
  have h: "list_all (\<lambda>op. op = ''+'' \<or> op = ''-'') [''-'', ''+''] \<and> isVar ''b''"
    by code_simp
  have two: "replicate 2 [CHR 0x27] = [[CHR 0x27], [CHR 0x27]]"
    by (simp add: numeral_2_eq_2)
  have stops: "stopAt PEMDAS 4 ''+''" "stopAt PEMDAS 3 ''+''" "stopAt PEMDAS 1 ''''"
    by (simp_all add: stopAt_def opensGroup_def isVar_glyphs isOp_iff list_ex_iff PEMDAS_def)
  have h1: "list_all (\<lambda>op. op = ''+'' \<or> op = ''-'') [''-''] \<and> specPhrase PEMDAS 6 [''a''] (Var ''a'')
              \<and> stopAt PEMDAS 4 ''+''"
    using spec_phrase_var [OF va, of 6] stops by simp
  have h2: "(3::nat) < 4 \<and> isOp ''^'' (Glyphs (Operators PEMDAS ! 3))
        \<and> specPhrase PEMDAS (3 + 1) [''a''] (Var ''a'')
        \<and> list_all (\<lambda>op. op = ''+'' \<or> op = ''-'') [''-''] \<and> specPhrase PEMDAS 6 [''b''] (Var ''b'')
        \<and> stopAt PEMDAS 3 ''+''"
    using spec_phrase_var [OF va, of "3 + 1"] spec_phrase_var [OF vb, of 6] stops
    by (simp add: PEMDAS_def isOp_iff)
  have h3: "(1::nat) < 4 \<and> isOp ''+'' (Glyphs (Operators PEMDAS ! 1))
        \<and> list_all (\<lambda>op. op = ''+'' \<or> op = ''-'') [''-''] \<and> specPhrase PEMDAS 6 [''a''] (Var ''a'')
        \<and> specPhrase PEMDAS (1 + 1) [''b''] (Var ''b'') \<and> stopAt PEMDAS 1 ''''"
    using spec_phrase_var [OF va, of 6] spec_phrase_var [OF vb, of "1 + 1"] stops
    by (simp add: PEMDAS_def isOp_iff)
  note chain = prefix_suffix_nesting [THEN conjunct2, THEN conjunct2, THEN conjunct2, THEN conjunct1, rule_format, OF h, of 2]
  note unit = prefix_suffix_nesting [THEN conjunct2, THEN conjunct2, THEN conjunct2, THEN conjunct2, THEN conjunct1, rule_format, OF h1, of 0 "[''b'', '''']"]
  note right = prefix_suffix_nesting [THEN conjunct2, THEN conjunct2, THEN conjunct2, THEN conjunct2, THEN conjunct2, THEN conjunct1, rule_format, OF h2, of 1 "[''c'', '''']"]
  note left = prefix_suffix_nesting [THEN conjunct2, THEN conjunct2, THEN conjunct2, THEN conjunct2, THEN conjunct2, THEN conjunct2, rule_format, OF h3, of 0 "[]"]
  from chain unit right left h h1 h2 h3 two show ?thesis by (simp add: numeral_2_eq_2)
qed

text \<open>
  Claim C5. A transparent group adds no node: \<^verbatim>\<open>[([a+b])*c]\<close> parses to exactly
  \<^verbatim>\<open>Binary{*, Binary{+, a, b}, c}\<close>. A structural group adds one: the empty \<^verbatim>\<open>{}\<close> is
  the variable named \<^verbatim>\<open>{}\<close>, and \<^verbatim>\<open>{a}\<close> is \<^verbatim>\<open>Unary\<close> with the operator \<^verbatim>\<open>{}\<close>
  around the interior. For every grammar: a transparent group whose interior is followed
  by its closer returns what the interior returned; a structural opener followed by its
  closer is the variable named opener-closer; and a structural group with an interior
  followed by its closer is \<^verbatim>\<open>Unary\<close> of opener-closer around the interior.
\<close>

theorem groups_transparent_and_structural:
  "ParseExpr PEMDAS ''[([a+b])*c]''
     = Inr (Binary ''*'' (Binary ''+'' (Var ''a'') (Var ''b'')) (Var ''c''), None)
   \<and> ParseExpr PEMDAS ''{}'' = Inr (Var ''{}'', None)
   \<and> ParseExpr PEMDAS ''{a}'' = Inr (Unary ''{}'' (Var ''a''), None)
   \<and> (\<forall>p t g rest lo e err inApp.
         \<not> isVar t \<and> find (\<lambda>g. t = Left g) (Parens p) = Some g
         \<and> parseExpr p 0 rest = Inr (Right g # lo, e, err)
         \<longrightarrow> parseSingle p (t # rest) inApp = Inr (lo, e, err))
   \<and> (\<forall>p t g rest inApp.
         \<not> isVar t \<and> find (\<lambda>g. t = Left g) (Parens p) = None
         \<and> find (\<lambda>g. t = Left g) (Brackets p) = Some g
         \<longrightarrow> parseSingle p (t # Right g # rest) inApp
               = Inr (rest, Var (Left g @ Right g), None))
   \<and> (\<forall>p t g rest lo e err inApp.
         \<not> isVar t \<and> find (\<lambda>g. t = Left g) (Parens p) = None
         \<and> find (\<lambda>g. t = Left g) (Brackets p) = Some g
         \<and> (rest = [] \<or> hd rest \<noteq> Right g)
         \<and> parseExpr p 0 rest = Inr (Right g # lo, e, err)
         \<longrightarrow> parseSingle p (t # rest) inApp = Inr (lo, Unary (Left g @ Right g) e, err))"
proof (intro conjI allI impI)
  show "ParseExpr PEMDAS ''[([a+b])*c]''
     = Inr (Binary ''*'' (Binary ''+'' (Var ''a'') (Var ''b'')) (Var ''c''), None)"
    by code_simp
  show "ParseExpr PEMDAS ''{}'' = Inr (Var ''{}'', None)"
    by code_simp
  show "ParseExpr PEMDAS ''{a}'' = Inr (Unary ''{}'' (Var ''a''), None)"
    by code_simp
next
  fix p :: Parser and t :: string and g :: Group and rest lo e err inApp
  assume "\<not> isVar t \<and> find (\<lambda>g. t = Left g) (Parens p) = Some g
         \<and> parseExpr p 0 rest = Inr (Right g # lo, e, err)"
  then show "parseSingle p (t # rest) inApp = Inr (lo, e, err)"
    by (simp add: transparent_group)
next
  fix p :: Parser and t :: string and g :: Group and rest inApp
  assume "\<not> isVar t \<and> find (\<lambda>g. t = Left g) (Parens p) = None
         \<and> find (\<lambda>g. t = Left g) (Brackets p) = Some g"
  then show "parseSingle p (t # Right g # rest) inApp
               = Inr (rest, Var (Left g @ Right g), None)"
    by (simp add: structural_group_empty)
next
  fix p :: Parser and t :: string and g :: Group and rest lo e err inApp
  assume "\<not> isVar t \<and> find (\<lambda>g. t = Left g) (Parens p) = None
         \<and> find (\<lambda>g. t = Left g) (Brackets p) = Some g
         \<and> (rest = [] \<or> hd rest \<noteq> Right g)
         \<and> parseExpr p 0 rest = Inr (Right g # lo, e, err)"
  then show "parseSingle p (t # rest) inApp = Inr (lo, Unary (Left g @ Right g) e, err)"
    by (intro structural_group_nonempty) simp_all
qed

theorem groups_transparent_and_structural_witness:
  "(\<not> isVar ''('' \<and> find (\<lambda>g. ''('' = Left g) (Parens PEMDAS) = Some \<lparr>Left = ''('', Right = '')''\<rparr>
      \<and> parseExpr PEMDAS 0 [''a'', '')'', ''''] = Inr ([Right \<lparr>Left = ''('', Right = '')''\<rparr>, ''''], Var ''a'', None))
   \<and> parseSingle PEMDAS [''('', ''a'', '')'', ''''] False = Inr ([''''], Var ''a'', None)
   \<and> (\<not> isVar ''{'' \<and> find (\<lambda>g. ''{'' = Left g) (Parens PEMDAS) = None
      \<and> find (\<lambda>g. ''{'' = Left g) (Brackets PEMDAS) = Some \<lparr>Left = ''{'', Right = ''}''\<rparr>)
   \<and> parseSingle PEMDAS [''{'', ''}'', ''''] False = Inr ([''''], Var ''{}'', None)
   \<and> parseExpr PEMDAS 0 [''a'', ''}'', ''''] = Inr ([Right \<lparr>Left = ''{'', Right = ''}''\<rparr>, ''''], Var ''a'', None)
   \<and> parseSingle PEMDAS [''{'', ''a'', ''}'', ''''] False = Inr ([''''], Unary ''{}'' (Var ''a''), None)"
proof -
  have h1: "\<not> isVar ''('' \<and> find (\<lambda>g. ''('' = Left g) (Parens PEMDAS) = Some \<lparr>Left = ''('', Right = '')''\<rparr>
      \<and> parseExpr PEMDAS 0 [''a'', '')'', ''''] = Inr (Right \<lparr>Left = ''('', Right = '')''\<rparr> # [''''], Var ''a'', None)"
    by code_simp
  have h2: "\<not> isVar ''{'' \<and> find (\<lambda>g. ''{'' = Left g) (Parens PEMDAS) = None
      \<and> find (\<lambda>g. ''{'' = Left g) (Brackets PEMDAS) = Some \<lparr>Left = ''{'', Right = ''}''\<rparr>"
    by code_simp
  have h3: "\<not> isVar ''{'' \<and> find (\<lambda>g. ''{'' = Left g) (Parens PEMDAS) = None
      \<and> find (\<lambda>g. ''{'' = Left g) (Brackets PEMDAS) = Some \<lparr>Left = ''{'', Right = ''}''\<rparr>
      \<and> ([''a'', ''}'', ''''] = [] \<or> hd [''a'', ''}'', ''''] \<noteq> Right \<lparr>Left = ''{'', Right = ''}''\<rparr>)
      \<and> parseExpr PEMDAS 0 [''a'', ''}'', ''''] = Inr (Right \<lparr>Left = ''{'', Right = ''}''\<rparr> # [''''], Var ''a'', None)"
    by code_simp
  note transparent = groups_transparent_and_structural
    [THEN conjunct2, THEN conjunct2, THEN conjunct2, THEN conjunct1, rule_format, OF h1, of False]
  note empty = groups_transparent_and_structural
    [THEN conjunct2, THEN conjunct2, THEN conjunct2, THEN conjunct2, THEN conjunct1,
     rule_format, OF h2, of "['''']" False]
  note nonempty = groups_transparent_and_structural
    [THEN conjunct2, THEN conjunct2, THEN conjunct2, THEN conjunct2, THEN conjunct2,
     rule_format, OF h3, of False]
  from transparent empty nonempty h1 h2 h3 show ?thesis by simp
qed

text \<open>
  Claim C7 says that the first \<^verbatim>\<open>Unexpected\<close> of the descent is the one the caller gets.
  On \<^verbatim>\<open>*a\<close> the atom parser reports the unexpected \<^verbatim>\<open>*\<close>, the \<^verbatim>\<open>InfixLeft\<close> case does
  not look at that error, takes \<^verbatim>\<open>*\<close> for its own operator and overwrites the error with
  the \<^verbatim>\<open>nil\<close> of the right operand: \<^verbatim>\<open>ParseExpr\<close> returns a tree with a \<^verbatim>\<open>nil\<close> child
  and no error. On \<^verbatim>\<open>(\<close> the error of the interior is replaced by the one of the missing
  closer.
\<close>

theorem error_swallowed_by_left_infix:
  "parseSingle PEMDAS [''*'', ''a'', ''''] False
     = Inr ([''*'', ''a'', ''''], NilExpr, Some \<lparr>Found = ''*'', Expecting = options PEMDAS\<rparr>)
   \<and> ParseExpr PEMDAS ''*a'' = Inr (Binary ''*'' NilExpr (Var ''a''), None)
   \<and> parseSingle PEMDAS [''''] False
     = Inr ([''''], NilExpr, Some \<lparr>Found = '''', Expecting = options PEMDAS\<rparr>)
   \<and> ParseExpr PEMDAS ''(''
     = Inr (NilExpr, Some \<lparr>Found = '''', Expecting = Quote '')''\<rparr>)
   \<and> options PEMDAS \<noteq> Quote '')''"
  by code_simp

text \<open>
  Claim C8. Parsing \<^verbatim>\<open>r=({a+b]\<close> with the \<^verbatim>\<open>PEMDAS\<close> grammar fails with
  \<^verbatim>\<open>Unexpected\<close>, \<^verbatim>\<open>Found\<close> being \<^verbatim>\<open>]\<close> and \<^verbatim>\<open>Expecting\<close> the three characters
  quote, right parenthesis, quote; no equation is returned.
\<close>

theorem mismatched_closer_error:
  "Parse PEMDAS ''r=({a+b]''
     = Inr (None, Some \<lparr>Found = '']'', Expecting = [CHR 0x22, CHR '')'', CHR 0x22]\<rparr>)"
  by code_simp

section \<open>Properties of the tokenizer\<close>

text \<open>
  Claim C9 says that no token is whitespace. Inside the loop a buffer of whitespace is
  dropped, but the buffer left at the end of the text is appended unchecked: \<^verbatim>\<open>a \<close> (with
  a trailing space) yields the tokens \<^verbatim>\<open>a\<close> and the space before the end-of-input
  marker, and the expression fails to parse on it.
\<close>

theorem trailing_whitespace_token:
  "tokenize ''a '' = ([''a'', '' '', ''''], None)
   \<and> ParseExpr PEMDAS ''a ''
       = Inr (NilExpr, Some \<lparr>Found = '' '', Expecting = ''end-of-input''\<rparr>)"
  by code_simp

text \<open>
  Claim C6 as stated fails: letters and digits are two classes of the tokenizer, so
  \<^verbatim>\<open>a1\<close> is the two tokens \<^verbatim>\<open>a\<close> and \<^verbatim>\<open>1\<close>.
\<close>

theorem letter_digit_two_tokens:
  "fst (tokenize ''a1'') = [''a'', ''1'', ''''] \<and> ''a1'' \<notin> set (fst (tokenize ''a1''))"
  by code_simp

lemma digit_not_other: "IsDigit c \<Longrightarrow> \<not> IsUpper c \<and> \<not> IsLetter c \<and> \<not> isWsp c"
  by (auto simp: IsDigit_def IsUpper_def IsLetter_def isWsp_def between_def)

lemma letter_not_other: "IsLetter c \<Longrightarrow> \<not> IsDigit c \<and> \<not> isWsp c"
  by (auto simp: IsDigit_def IsLetter_def isWsp_def between_def)

lemma selectPred_digit: "IsDigit c \<Longrightarrow> selectPred c 0 tokenPreds = Some IsDigit"
  using digit_not_other [of c] by (simp add: tokenPreds_def)

lemma selectPred_letter:
  "IsLetter c \<Longrightarrow> \<not> IsUpper c \<Longrightarrow> selectPred c 0 tokenPreds = Some IsLetter"
  by (simp add: tokenPreds_def)

lemma selectPred_cases:
  "selectPred c 0 tokenPreds = Some P \<Longrightarrow>
     P c \<and> (P = IsLetter \<or> P = IsDigit \<or> P = isWsp)"
  by (auto simp: tokenPreds_def split: if_splits)

text \<open>The tokens already emitted stay in front of whatever the scan appends.\<close>

lemma scan_matches_prefix:
  "foldl tokenizeStep (st, m0 @ m, b) xs =
     (case foldl tokenizeStep (st, m, b) xs of (st', m', b') \<Rightarrow> (st', m0 @ m', b'))"
  by (induction xs arbitrary: st m b) auto

lemma scanInv_step:
  assumes "scanInv text s"
  shows "scanInv (text @ [c]) (tokenizeStep s c)"
proof -
  obtain st m b where s: "s = (st, m, b)" by (cases s) auto
  show ?thesis
  proof (cases "st \<noteq> None \<and> (the st) c")
    case True
    with assms s show ?thesis by (auto simp: scanInv_def)
  next
    case False
    with assms s show ?thesis
      by (auto simp: scanInv_def hd_conv_nth dest: selectPred_cases)
  qed
qed

lemma scanInv_scan: "scanInv code (foldl tokenizeStep (None, [], []) code)"
proof (induction code rule: rev_induct)
  case Nil
  show ?case by (simp add: scanInv_def)
next
  case (snoc c code)
  from scanInv_step [OF snoc] show ?case by simp
qed


lemma scan_run:
  assumes "list_all cls cs"
  shows "foldl tokenizeStep (Some cls, m, b) cs = (Some cls, m, b @ cs)"
  using assms by (induction cs arbitrary: b) auto

lemma scan_start_run:
  assumes inv: "scanInv pre (st, m, b)"
    and sel: "selectPred c 0 tokenPreds = Some cls"
    and cls: "cls = IsDigit \<or> cls = IsLetter"
    and c: "cls c"
    and max: "pre = [] \<or> \<not> cls (last pre)"
  shows "tokenizeStep (st, m, b) c =
           (Some cls, (if b \<noteq> [] \<and> \<not> isWsp (hd b) then m @ [b] else m), [c])"
proof -
  have "\<not> (st \<noteq> None \<and> (the st) c)"
  proof
    assume a: "st \<noteq> None \<and> (the st) c"
    then obtain P where P: "st = Some P" "P c" by auto
    with inv have ne: "pre \<noteq> []" and Pl: "P (last pre)"
      and Pc: "P = IsLetter \<or> P = IsDigit \<or> P = isWsp"
      by (auto simp: scanInv_def)
    from max ne have "\<not> cls (last pre)" by simp
    with Pl Pc cls c P(2) show False
      using digit_not_other [of c] letter_not_other [of c] by auto
  qed
  with sel show ?thesis by (cases b) (auto simp: hd_conv_nth)
qed


lemma tokenize_class_run:
  assumes run: "run = c # cs"
    and allcls: "list_all cls run"
    and cls: "cls = IsDigit \<or> cls = IsLetter"
    and sel: "selectPred c 0 tokenPreds = Some cls"
    and max_pre: "pre = [] \<or> \<not> cls (last pre)"
    and max_post: "post = [] \<or> \<not> cls (hd post)"
  shows "fst (tokenize (pre @ run @ post)) =
           filter (\<lambda>t. t \<noteq> [] \<and> \<not> isWsp (hd t)) (fst (tokenize pre)) @ [run]
           @ (if post = [] then [''''] else fst (tokenize post))"
proof -
  obtain st m b where pre: "foldl tokenizeStep (None, [], []) pre = (st, m, b)"
    by (cases "foldl tokenizeStep (None, [], []) pre") auto
  from scanInv_scan [of pre] pre have inv: "scanInv pre (st, m, b)" by simp
  define m1 where "m1 = (if b \<noteq> [] \<and> \<not> isWsp (hd b) then m @ [b] else m)"
  from allcls run have c: "cls c" and cs: "list_all cls cs" by auto
  from c cls have nw: "\<not> isWsp c"
    using digit_not_other [of c] letter_not_other [of c] by auto
  have first: "tokenizeStep (st, m, b) c = (Some cls, m1, [c])"
    unfolding m1_def by (rule scan_start_run [OF inv sel cls c max_pre])
  have upto_run: "foldl tokenizeStep (None, [], []) (pre @ run) = (Some cls, m1, run)"
    using pre first scan_run [OF cs, of m1 "[c]"] run by simp
  from inv have "list_all (\<lambda>t. t \<noteq> [] \<and> \<not> isWsp (hd t)) m" by (simp add: scanInv_def)
  then have "filter (\<lambda>t. t \<noteq> [] \<and> \<not> isWsp (hd t)) m = m"
    by (simp add: list_all_iff)
  then have before: "filter (\<lambda>t. t \<noteq> [] \<and> \<not> isWsp (hd t)) (fst (tokenize pre)) = m1"
    using pre by (simp add: tokenize_def m1_def)
  show ?thesis
  proof (cases post)
    case Nil
    with upto_run before show ?thesis by (simp add: tokenize_def)
  next
    case (Cons c' ps)
    with max_post have nc: "\<not> cls c'" by simp
    obtain st' m' b' where post:
      "foldl tokenizeStep (selectPred c' 0 tokenPreds, [], [c']) ps = (st', m', b')"
      by (cases "foldl tokenizeStep (selectPred c' 0 tokenPreds, [], [c']) ps") auto
    have "tokenizeStep (Some cls, m1, run) c' = (selectPred c' 0 tokenPreds, (m1 @ [run]) @ [], [c'])"
      using nc nw run by simp
    then have "foldl tokenizeStep (None, [], []) (pre @ run @ post)
                 = foldl tokenizeStep (selectPred c' 0 tokenPreds, (m1 @ [run]) @ [], [c']) ps"
      using upto_run Cons by (simp del: tokenizeStep.simps append_assoc add: append_assoc [symmetric])
    also have "\<dots> = (st', (m1 @ [run]) @ m', b')"
      using post by (simp only: scan_matches_prefix) simp
    finally have whole: "fst (tokenize (pre @ run @ post)) = m1 @ [run] @ m' @ [b'] @ ['''']"
      by (simp add: tokenize_def)
    have "fst (tokenize post) = m' @ [b'] @ ['''']"
      using post Cons by (simp add: tokenize_def)
    with whole before Cons show ?thesis by simp
  qed
qed

text \<open>
  Claim C6, amended. A maximal run of decimal digits is emitted as one single token, and
  so is a maximal run of letters whose first letter is not upper-case: the tokens of
  \<open>pre @ run @ post\<close> are the tokens of \<open>pre\<close> (without its end-of-input marker
  and without a last buffer that is empty or whitespace), then \<open>run\<close>, then the tokens
  of \<open>post\<close>. Letters and digits are two classes and do not merge.
\<close>

theorem class_runs_one_token:
  assumes "run \<noteq> []"
    and "(list_all IsDigit run \<and> (pre = [] \<or> \<not> IsDigit (last pre))
            \<and> (post = [] \<or> \<not> IsDigit (hd post)))
       \<or> (list_all IsLetter run \<and> \<not> IsUpper (hd run)
            \<and> (pre = [] \<or> \<not> IsLetter (last pre))
            \<and> (post = [] \<or> \<not> IsLetter (hd post)))"
  shows "fst (tokenize (pre @ run @ post)) =
           filter (\<lambda>t. t \<noteq> [] \<and> \<not> isWsp (hd t)) (fst (tokenize pre)) @ [run]
           @ (if post = [] then [''''] else fst (tokenize post))"
proof -
  from assms(1) obtain c cs where run: "run = c # cs" by (cases run) auto
  from assms(2) show ?thesis
  proof
    assume a: "list_all IsDigit run \<and> (pre = [] \<or> \<not> IsDigit (last pre))
            \<and> (post = [] \<or> \<not> IsDigit (hd post))"
    with run have "selectPred c 0 tokenPreds = Some IsDigit" by (simp add: selectPred_digit)
    with a run show ?thesis by (intro tokenize_class_run [where cls = IsDigit]) auto
  next
    assume a: "list_all IsLetter run \<and> \<not> IsUpper (hd run)
            \<and> (pre = [] \<or> \<not> IsLetter (last pre))
            \<and> (post = [] \<or> \<not> IsLetter (hd post))"
    with run have "selectPred c 0 tokenPreds = Some IsLetter" by (simp add: selectPred_letter)
    with a run show ?thesis by (intro tokenize_class_run [where cls = IsLetter]) auto
  qed
qed

theorem class_runs_one_token_witness:
  "(''ab'' \<noteq> [] \<and> list_all IsLetter ''ab'' \<and> \<not> IsUpper (hd ''ab'')
      \<and> \<not> IsLetter (last ''x+'') \<and> \<not> IsLetter (hd ''42 ''))
   \<and> fst (tokenize ''x+ab42 '') = [''x'', ''+'', ''ab'', ''42'', '' '', '''']
   \<and> fst (tokenize (''x+'' @ ''ab'' @ ''42 '')) =
           filter (\<lambda>t. t \<noteq> [] \<and> \<not> isWsp (hd t)) (fst (tokenize ''x+'')) @ [''ab'']
           @ (if ''42 '' = [] then [''''] else fst (tokenize ''42 ''))"
proof -
  have h: "''ab'' \<noteq> []" "(list_all IsDigit ''ab'' \<and> (''x+'' = [] \<or> \<not> IsDigit (last ''x+''))
            \<and> (''42 '' = [] \<or> \<not> IsDigit (hd ''42 '')))
       \<or> (list_all IsLetter ''ab'' \<and> \<not> IsUpper (hd ''ab'')
            \<and> (''x+'' = [] \<or> \<not> IsLetter (last ''x+''))
            \<and> (''42 '' = [] \<or> \<not> IsLetter (hd ''42 '')))"
    by (simp_all add: IsLetter_def IsUpper_def between_def)
  have e: "fst (tokenize ''x+ab42 '') = [''x'', ''+'', ''ab'', ''42'', '' '', '''']"
    by code_simp
  have p: "list_all IsLetter ''ab'' \<and> \<not> IsUpper (hd ''ab'')
      \<and> \<not> IsLetter (last ''x+'') \<and> \<not> IsLetter (hd ''42 '')"
    by (simp add: IsLetter_def IsUpper_def between_def)
  from class_runs_one_token [OF h] e p show ?thesis by simp
qed

end
